(* ===== verification/Prelude.thy ===== *)
theory Prelude
  imports Main "HOL-Library.Product_Lexorder"
begin

text \<open>
  Shared vocabulary of the development: the Python exceptions the modelled code can raise,
  Python's list indexing (negative indices count from the end, anything else out of range
  raises \<open>IndexError\<close>), and generic list lemmas used by the component theories.
  The collection \<open>py_index_simps\<close> gathers the definitions that evaluate indexing on
  concrete lists and indices; the component theories add their own evaluation bundles.
\<close>

named_theorems py_index_simps "rules evaluating Python list indexing"

section \<open>Python exceptions\<close>

text \<open>
  \<open>IndexError\<close> is raised by \<^verbatim>\<open>xs[i]\<close> out of range; \<open>Exception\<close> is the bare
  \<^verbatim>\<open>raise Exception\<close> of \<^verbatim>\<open>result\<close> on an occupied cell; \<open>KeyError\<close> is
  raised by \<^verbatim>\<open>d[k]\<close> on a missing key, \<open>ZeroDivisionError\<close> by \<^verbatim>\<open>x / 0\<close>, and
  \<open>UnboundLocalError\<close> by reading a local variable no statement has assigned yet.
  \<open>FileNotFoundError\<close> is raised by \<^verbatim>\<open>os.listdir\<close> on a missing directory,
  \<open>IsADirectoryError\<close> by \<^verbatim>\<open>open\<close> on a directory, \<open>UnicodeDecodeError\<close> by
  reading a file that is not UTF-8, and \<open>SystemExit msg\<close> by \<^verbatim>\<open>sys.exit(msg)\<close>.
\<close>

datatype py_error = IndexError | Exception | KeyError | ZeroDivisionError | UnboundLocalError
  | FileNotFoundError | IsADirectoryError | UnicodeDecodeError | SystemExit string

section \<open>Python list indexing\<close>

definition py_norm :: "'a list \<Rightarrow> int \<Rightarrow> int" where
  "py_norm xs i = (if i < 0 then int (length xs) + i else i)"

definition py_in_range :: "'a list \<Rightarrow> int \<Rightarrow> bool" where
  "py_in_range xs i \<longleftrightarrow> 0 \<le> py_norm xs i \<and> py_norm xs i < int (length xs)"

text \<open>\<^verbatim>\<open>xs[i]\<close>, raising \<open>IndexError\<close> out of range.\<close>

definition py_nth :: "'a list \<Rightarrow> int \<Rightarrow> py_error + 'a" where
  "py_nth xs i = (if py_in_range xs i then Inr (xs ! nat (py_norm xs i)) else Inl IndexError)"

text \<open>\<^verbatim>\<open>xs[i]\<close> where the index is known to be in range (the loops of the code).\<close>

definition py_get :: "'a list \<Rightarrow> int \<Rightarrow> 'a" where
  "py_get xs i = xs ! nat (py_norm xs i)"

text \<open>\<^verbatim>\<open>xs[i] = v\<close> at an index already checked to be in range.\<close>

definition py_set :: "'a list \<Rightarrow> int \<Rightarrow> 'a \<Rightarrow> 'a list" where
  "py_set xs i v = xs[nat (py_norm xs i) := v]"

declare py_norm_def [py_index_simps] py_in_range_def [py_index_simps]
  py_nth_def [py_index_simps] py_get_def [py_index_simps] py_set_def [py_index_simps]

lemma py_norm_nonneg [simp]: "0 \<le> i \<Longrightarrow> py_norm xs i = i"
  by (simp add: py_norm_def)

lemma py_norm_neg: "i < 0 \<Longrightarrow> py_norm xs i = int (length xs) + i"
  by (simp add: py_norm_def)

lemma py_in_range_iff:
  "py_in_range xs i \<longleftrightarrow> - int (length xs) \<le> i \<and> i < int (length xs)"
  by (auto simp: py_in_range_def py_norm_def)

lemma py_nth_ok [simp]: "py_in_range xs i \<Longrightarrow> py_nth xs i = Inr (py_get xs i)"
  by (simp add: py_nth_def py_get_def)

lemma py_nth_error [simp]: "\<not> py_in_range xs i \<Longrightarrow> py_nth xs i = Inl IndexError"
  by (simp add: py_nth_def)

lemma py_nth_Inr_iff: "py_nth xs i = Inr v \<longleftrightarrow> py_in_range xs i \<and> v = py_get xs i"
  by (auto simp: py_nth_def py_get_def)

lemma py_nth_not_Exception [simp]: "py_nth xs i \<noteq> Inl Exception"
  by (simp add: py_nth_def)

lemma py_norm_bounds: "py_in_range xs i \<Longrightarrow> nat (py_norm xs i) < length xs"
  by (simp add: py_in_range_def nat_less_iff)

lemma py_norm_update [simp]: "py_norm (xs[k := v]) i = py_norm xs i"
  by (simp add: py_norm_def)

lemma py_get_nonneg [simp]: "0 \<le> i \<Longrightarrow> py_get xs i = xs ! nat i"
  by (simp add: py_get_def)

lemma py_set_length [simp]: "length (py_set xs i v) = length xs"
  by (simp add: py_set_def)

lemma py_get_py_set_same:
  "py_in_range xs i \<Longrightarrow> py_get (py_set xs i v) i = v"
  by (simp add: py_get_def py_set_def py_norm_bounds)

section \<open>Small lists\<close>

lemma replicate_three [simp]: "replicate 3 x = [x, x, x]"
  by (simp add: numeral_3_eq_3)

section \<open>Maxima and minima of a running bound\<close>

text \<open>
  A scan that keeps a running best value \<open>v\<close> and meets a new value \<open>y\<close>: the
  extremum of everything seen is unchanged when \<open>y\<close> does not improve on \<open>v\<close>.
\<close>

lemma Max_insert_le:
  assumes "finite S" "y \<le> v"
  shows "Max (insert v (insert y S)) = Max (insert v S)"
proof -
  have "y \<le> Max (insert v S)" using assms by (meson Max_ge finite_insert insertI1 order_trans)
  then show ?thesis using assms by (simp add: insert_commute [of v y] max_def)
qed

lemma Max_insert_gt:
  assumes "finite S" "(v::'a::linorder) < y"
  shows "Max (insert v (insert y S)) = Max (insert y S)"
proof -
  have "v \<le> Max (insert y S)" using assms by (meson Max_ge finite_insert insertI1 order.trans less_imp_le)
  then show ?thesis using assms by (simp add: max_def)
qed

lemma Min_insert_ge:
  assumes "finite S" "v \<le> y"
  shows "Min (insert v (insert y S)) = Min (insert v S)"
proof -
  have le: "Min (insert v S) \<le> y" using assms by (meson Min_le finite_insert insertI1 order_trans)
  have "Min (insert v (insert y S)) = Min (insert y (insert v S))"
    by (simp only: insert_commute)
  also have "\<dots> = min y (Min (insert v S))"
    by (rule Min_insert) (simp_all add: assms(1))
  also have "\<dots> = Min (insert v S)"
    using le by (rule min_absorb2)
  finally show ?thesis .
qed

lemma Min_insert_lt:
  assumes "finite S" "y < (v::'a::linorder)"
  shows "Min (insert v (insert y S)) = Min (insert y S)"
proof -
  have le: "Min (insert y S) \<le> v"
    using assms by (meson Min_le finite_insert insertI1 order.trans less_imp_le)
  have "Min (insert v (insert y S)) = min v (Min (insert y S))"
    by (rule Min_insert) (simp_all add: assms(1))
  also have "\<dots> = Min (insert y S)"
    using le by (rule min_absorb2)
  finally show ?thesis .
qed

text \<open>An initial bound below (above) every value is forgotten by the extremum.\<close>

lemma Max_insert_below:
  assumes "finite A" "A \<noteq> {}" "\<forall>x\<in>A. lo \<le> x" "(v::'a::linorder) < lo"
  shows "Max (insert v A) = Max A"
proof -
  from assms(1,2) have "Max A \<in> A" by (rule Max_in)
  with assms(3,4) have "v \<le> Max A" by (meson order.strict_trans2 less_imp_le)
  with assms(1,2) show ?thesis by (simp add: max_absorb2)
qed

lemma Min_insert_above:
  assumes "finite A" "A \<noteq> {}" "\<forall>x\<in>A. x \<le> hi" "hi < (v::'a::linorder)"
  shows "Min (insert v A) = Min A"
proof -
  from assms(1,2) have "Min A \<in> A" by (rule Min_in)
  with assms(3,4) have "Min A \<le> v" by (meson order.strict_trans1 less_imp_le)
  with assms(1,2) show ?thesis by (simp add: min_absorb2)
qed

lemma Max_image_in:
  assumes "finite A" "A \<noteq> {}" "\<forall>x\<in>A. f x \<in> S"
  shows "Max (f ` A) \<in> S"
proof -
  from assms(1,2) have "Max (f ` A) \<in> f ` A" by (intro Max_in) simp_all
  with assms(3) show ?thesis by (metis imageE)
qed

lemma Min_image_in:
  assumes "finite A" "A \<noteq> {}" "\<forall>x\<in>A. f x \<in> S"
  shows "Min (f ` A) \<in> S"
proof -
  from assms(1,2) have "Min (f ` A) \<in> f ` A" by (intro Min_in) simp_all
  with assms(3) show ?thesis by (metis imageE)
qed

section \<open>Counting in lists\<close>

lemma count_list_update:
  "i < length xs \<Longrightarrow>
   count_list (xs[i := y]) z + (if xs ! i = z then 1 else 0) =
     count_list xs z + (if y = z then 1 else 0)"
proof (induction xs arbitrary: i)
  case Nil
  then show ?case by simp
next
  case (Cons x xs)
  show ?case
  proof (cases i)
    case 0
    then show ?thesis by simp
  next
    case (Suc k)
    with Cons.prems have "k < length xs" by simp
    with Cons.IH [of k] Suc show ?thesis by (auto split: if_splits)
  qed
qed

lemma count_list_concat_update:
  "k < length xss \<Longrightarrow>
   count_list (concat (xss[k := ys])) z + count_list (xss ! k) z =
     count_list (concat xss) z + count_list ys z"
proof (induction xss arbitrary: k)
  case Nil
  then show ?case by simp
next
  case (Cons xs xss)
  show ?case
  proof (cases k)
    case 0
    then show ?thesis by simp
  next
    case (Suc k')
    with Cons.prems have "k' < length xss" by simp
    with Cons.IH [of k'] Suc show ?thesis by simp
  qed
qed

lemma count_list_update_less:
  assumes "i < length xs" "xs ! i = z" "y \<noteq> z"
  shows "count_list (xs[i := y]) z < count_list xs z"
  using count_list_update [OF assms(1), of y z] assms(2,3) by simp

lemma count_list_pos_nth: "i < length xs \<Longrightarrow> xs ! i = z \<Longrightarrow> 0 < count_list xs z"
  by (metis count_list_0_iff nth_mem not_gr0)

end
