(* ===== verification/Board.thy ===== *)
theory Board
  imports Prelude
begin

text \<open>
  The board model of \<^verbatim>\<open>src/search/tictactoe/tictactoe.py\<close>: the marks \<^verbatim>\<open>X\<close> and
  \<^verbatim>\<open>O\<close> (constructors \<open>X\<close> and \<open>O'\<close>, since \<open>O\<close> is HOL's relation
  composition), a cell that is \<^verbatim>\<open>EMPTY = None\<close> or holds a mark, a board as the Python
  list of three rows of three cells, an action as the pair of Python integers
  \<^verbatim>\<open>(i, j)\<close>, and \<^verbatim>\<open>initial_state\<close>. The shape invariant \<open>wf_board\<close> (three rows
  of three cells) and the mark counts used by the turn rule are defined here.
\<close>

datatype mark = X | O'

type_synonym cell = "mark option"
type_synonym board = "cell list list"
type_synonym action = "int \<times> int"

abbreviation EMPTY :: cell where
  "EMPTY \<equiv> None"

definition initial_state :: board where
  "initial_state = [[EMPTY, EMPTY, EMPTY], [EMPTY, EMPTY, EMPTY], [EMPTY, EMPTY, EMPTY]]"

text \<open>\<^verbatim>\<open>range(3)\<close> and the row-major order of the nested loops over \<^verbatim>\<open>i, j\<close>.\<close>

definition range3 :: "int list" where
  "range3 = [0, 1, 2]"

definition coords :: "action list" where
  "coords = [(i, j). i \<leftarrow> range3, j \<leftarrow> range3]"

text \<open>\<^verbatim>\<open>board[i][j]\<close> for \<^verbatim>\<open>i, j\<close> drawn from \<^verbatim>\<open>range(3)\<close>.\<close>

definition get_cell :: "board \<Rightarrow> int \<Rightarrow> int \<Rightarrow> cell" where
  "get_cell b i j = py_get (py_get b i) j"

definition wf_board :: "board \<Rightarrow> bool" where
  "wf_board b \<longleftrightarrow> length b = 3 \<and> list_all (\<lambda>row. length row = 3) b"

text \<open>Number of cells holding \<open>c\<close>; \<open>empties\<close> counts the free cells.\<close>

definition count_mark :: "board \<Rightarrow> cell \<Rightarrow> nat" where
  "count_mark b c = count_list (concat b) c"

abbreviation empties :: "board \<Rightarrow> nat" where
  "empties b \<equiv> count_mark b EMPTY"

lemma player_not_X [simp]: "p \<noteq> X \<longleftrightarrow> p = O'"
  by (cases p) simp_all

lemma wf_initial_state [simp]: "wf_board initial_state"
  by (simp add: wf_board_def initial_state_def)

lemma mem_range3: "i \<in> set range3 \<longleftrightarrow> 0 \<le> i \<and> i \<le> 2"
  by (simp add: range3_def) presburger

lemma mem_coords: "(i, j) \<in> set coords \<longleftrightarrow> 0 \<le> i \<and> i \<le> 2 \<and> 0 \<le> j \<and> j \<le> 2"
proof -
  have "(i, j) \<in> set coords \<longleftrightarrow> i \<in> set range3 \<and> j \<in> set range3"
    by (auto simp: coords_def)
  then show ?thesis by (simp add: mem_range3)
qed

lemma distinct_coords: "distinct coords"
  by (simp add: coords_def range3_def)

lemma length3_iff: "length xs = 3 \<longleftrightarrow> (\<exists>a b c. xs = [a, b, c])"
  by (auto simp: numeral_3_eq_3 length_Suc_conv)
lemma length3_cases:
  assumes "length xs = 3"
  obtains a b c where "xs = [a, b, c]"
proof -
  from assms have "\<exists>a b c. xs = [a, b, c]" by (simp only: length3_iff)
  then obtain a b c where "xs = [a, b, c]" by (elim exE)
  then show ?thesis by (rule that)
qed
lemma wf_board_cases:
  assumes "wf_board b"
  obtains c00 c01 c02 c10 c11 c12 c20 c21 c22
  where "b = [[c00, c01, c02], [c10, c11, c12], [c20, c21, c22]]"
proof -
  from assms have "length b = 3" by (simp add: wf_board_def)
  then obtain r0 r1 r2 where b: "b = [r0, r1, r2]" by (rule length3_cases)
  with assms have l: "length r0 = 3" "length r1 = 3" "length r2 = 3"
    by (simp_all add: wf_board_def)
  obtain c00 c01 c02 where "r0 = [c00, c01, c02]" using l(1) by (rule length3_cases)
  moreover obtain c10 c11 c12 where "r1 = [c10, c11, c12]" using l(2) by (rule length3_cases)
  moreover obtain c20 c21 c22 where "r2 = [c20, c21, c22]" using l(3) by (rule length3_cases)
  ultimately have "b = [[c00, c01, c02], [c10, c11, c12], [c20, c21, c22]]"
    using b by simp
  then show ?thesis by (rule that)
qed
lemma map_get_cell_coords:
  "wf_board b \<Longrightarrow> map (\<lambda>(i, j). get_cell b i j) coords = concat b"
  by (erule wf_board_cases) (simp add: coords_def range3_def get_cell_def)

lemma wf_board_length_concat: "wf_board b \<Longrightarrow> length (concat b) = 9"
  by (erule wf_board_cases) simp

lemma count_mark_sum:
  assumes "wf_board b"
  shows "count_mark b (Some X) + count_mark b (Some O') + empties b = 9"
proof -
  have "\<And>xs::cell list. count_list xs (Some X) + count_list xs (Some O') + count_list xs None = length xs"
  proof -
    fix xs :: "cell list"
    show "count_list xs (Some X) + count_list xs (Some O') + count_list xs None = length xs"
    proof (induction xs)
      case Nil
      then show ?case by simp
    next
      case (Cons c xs)
      then show ?case by (cases c) auto
    qed
  qed
  then show ?thesis
    using assms by (simp add: count_mark_def wf_board_length_concat)
qed

text \<open>In-range cells of a well-formed board.\<close>

lemma wf_board_row:
  "wf_board b \<Longrightarrow> k < 3 \<Longrightarrow> length (b ! k) = 3"
  by (simp add: wf_board_def list_all_length)

lemma wf_board_update:
  "wf_board b \<Longrightarrow> k < 3 \<Longrightarrow> length r = 3 \<Longrightarrow> wf_board (b[k := r])"
  by (simp add: wf_board_def list_all_length nth_list_update)

lemma get_cell_nonneg:
  "0 \<le> i \<Longrightarrow> 0 \<le> j \<Longrightarrow> get_cell b i j = b ! nat i ! nat j"
  by (simp add: get_cell_def)

end
