(* ===== verification/Rules.thy ===== *)
theory Rules
  imports Board
begin

unbundle bit_operations_syntax

text \<open>
  The rules engine of \<^verbatim>\<open>tictactoe.py\<close>: \<^verbatim>\<open>player\<close> (turn inference from the
  marks), \<^verbatim>\<open>actions\<close> (the set of free cells), \<^verbatim>\<open>result\<close> (move application,
  raising on an occupied cell or an index out of range), \<^verbatim>\<open>winner\<close> (the eight lines,
  \<^verbatim>\<open>X\<close> checked before \<^verbatim>\<open>O\<close>), \<^verbatim>\<open>terminal\<close> and \<^verbatim>\<open>utility\<close>. Each is
  translated statement by statement; the lemmas relate them to the board's cells and counts.
\<close>

section \<open>Operations\<close>

text \<open>
  The nested loop of \<^verbatim>\<open>player\<close> counting \<^verbatim>\<open>Xnum\<close> and \<^verbatim>\<open>Onum\<close>, in the
  row-major order of \<^verbatim>\<open>for i in range(3): for j in range(3)\<close>.
\<close>

definition player_counts :: "board \<Rightarrow> nat \<times> nat" where
  "player_counts b =
     foldl (\<lambda>(xnum, onum) (i, j).
              if get_cell b i j = Some X then (Suc xnum, onum)
              else if get_cell b i j = Some O' then (xnum, Suc onum)
              else (xnum, onum))
       (0, 0) coords"

definition player :: "board \<Rightarrow> mark" where
  "player b =
     (if b = initial_state then X
      else (let (xnum, onum) = player_counts b in if xnum > onum then O' else X))"

definition actions :: "board \<Rightarrow> action set" where
  "actions b =
     foldl (\<lambda>acts (i, j). if get_cell b i j = EMPTY then insert (i, j) acts else acts) {} coords"

text \<open>
  \<^verbatim>\<open>result\<close>: the mover is computed first, then \<^verbatim>\<open>board[i][j]\<close> is read with
  Python indexing (a negative index counts from the end; anything else out of range raises
  \<open>IndexError\<close>), a non-empty cell raises \<open>Exception\<close>, and otherwise the copy
  \<^verbatim>\<open>new_board\<close> gets the mover's mark at the same, already checked, indices.
\<close>

definition result :: "board \<Rightarrow> action \<Rightarrow> py_error + board" where
  "result b a =
     (let player_move = player b; new_board = b; (i, j) = a in
      case py_nth b i of
        Inl e \<Rightarrow> Inl e
      | Inr row \<Rightarrow>
          (case py_nth row j of
             Inl e \<Rightarrow> Inl e
           | Inr c \<Rightarrow>
               if c \<noteq> None then Inl Exception
               else Inr (py_set new_board i (py_set (py_get new_board i) j (Some player_move)))))"

text \<open>
  The checks of \<^verbatim>\<open>winner\<close> for one mark: every row of the board, the three columns
  \<^verbatim>\<open>[board[x][i] for x in range(3)]\<close>, the diagonal \<^verbatim>\<open>board[i][i]\<close> and the
  anti-diagonal \<^verbatim>\<open>board[i][~i]\<close>, with \<^verbatim>\<open>~i\<close> the bitwise complement
  \<open>NOT i = - i - 1\<close> used as a Python index.
\<close>

definition player_wins :: "board \<Rightarrow> mark \<Rightarrow> bool" where
  "player_wins b p \<longleftrightarrow>
     list_ex (\<lambda>row. row = replicate 3 (Some p)) b \<or>
     list_ex (\<lambda>i. map (\<lambda>x. get_cell b x i) range3 = replicate 3 (Some p)) range3 \<or>
     map (\<lambda>i. get_cell b i i) range3 = replicate 3 (Some p) \<or>
     map (\<lambda>i. py_get (py_get b i) (NOT i)) range3 = replicate 3 (Some p)"

text \<open>\<^verbatim>\<open>for player in (X, O)\<close>: the first mark with a full line is returned.\<close>

definition winner :: "board \<Rightarrow> mark option" where
  "winner b = find (player_wins b) [X, O']"

definition terminal :: "board \<Rightarrow> bool" where
  "terminal b =
     (if winner b \<noteq> None then True
      else if list_ex (\<lambda>row. EMPTY \<in> set row) b then False
      else True)"

definition utility :: "board \<Rightarrow> int" where
  "utility b =
     (let winPlayer = winner b in
      if winPlayer = Some X then 1 else if winPlayer = Some O' then -1 else 0)"

section \<open>The winning lines of the specification\<close>

text \<open>
  The reference against which \<open>player_wins\<close> is checked: the spec's eight lines, three
  rows, three columns, the main diagonal and the anti-diagonal \<open>(0,2), (1,1), (2,0)\<close>,
  written out cell by cell.
\<close>

definition winning_lines :: "action list list" where
  "winning_lines =
     [[(0, 0), (0, 1), (0, 2)], [(1, 0), (1, 1), (1, 2)], [(2, 0), (2, 1), (2, 2)],
      [(0, 0), (1, 0), (2, 0)], [(0, 1), (1, 1), (2, 1)], [(0, 2), (1, 2), (2, 2)],
      [(0, 0), (1, 1), (2, 2)], [(0, 2), (1, 1), (2, 0)]]"

definition owns_line :: "board \<Rightarrow> mark \<Rightarrow> action list \<Rightarrow> bool" where
  "owns_line b p l \<longleftrightarrow> list_all (\<lambda>(i, j). get_cell b i j = Some p) l"

section \<open>Turn inference\<close>

text \<open>Everything needed to evaluate the rules on a concrete board by \<open>simp\<close>.\<close>

lemmas board_eval = player_def player_counts_def actions_def result_def winner_def
  player_wins_def terminal_def utility_def coords_def range3_def get_cell_def
  initial_state_def not_int_def py_index_simps

lemma foldl_player_counts:
  "foldl (\<lambda>(xnum, onum) (i, j).
            if f i j = Some X then (Suc xnum, onum)
            else if f i j = Some O' then (xnum, Suc onum)
            else (xnum, onum)) (x0, o0) xs =
   (x0 + count_list (map (\<lambda>(i, j). f i j) xs) (Some X),
    o0 + count_list (map (\<lambda>(i, j). f i j) xs) (Some O'))"
  by (induction xs arbitrary: x0 o0) auto

lemma player_counts_eq:
  "wf_board b \<Longrightarrow> player_counts b = (count_mark b (Some X), count_mark b (Some O'))"
  by (simp add: player_counts_def foldl_player_counts map_get_cell_coords count_mark_def)

lemma count_mark_initial [simp]: "count_mark initial_state (Some p) = 0"
  by (simp add: count_mark_def initial_state_def)

lemma player_eq:
  "wf_board b \<Longrightarrow>
   player b = (if count_mark b (Some X) > count_mark b (Some O') then O' else X)"
  by (auto simp: player_def player_counts_eq)

section \<open>Legal actions\<close>

lemma foldl_insert_actions:
  "foldl (\<lambda>acts (i, j). if f i j then insert (i, j) acts else acts) S xs =
   S \<union> {(i, j). (i, j) \<in> set xs \<and> f i j}"
  by (induction xs arbitrary: S) (auto split: if_splits)

lemma actions_eq: "actions b = {(i, j). (i, j) \<in> set coords \<and> get_cell b i j = EMPTY}"
  by (simp add: actions_def foldl_insert_actions)

lemma actions_in_range: "(i, j) \<in> actions b \<Longrightarrow> 0 \<le> i \<and> i \<le> 2 \<and> 0 \<le> j \<and> j \<le> 2"
  by (simp add: actions_eq mem_coords)

lemma actions_subset_coords: "actions b \<subseteq> set coords"
  by (auto simp: actions_eq)

lemma finite_actions [simp]: "finite (actions b)"
  using actions_subset_coords by (rule finite_subset) simp

lemma length_filter_pairs:
  "length (filter (\<lambda>(i, j). g i j = c) xs) = count_list (map (\<lambda>(i, j). g i j) xs) c"
  by (induction xs) auto

lemma actions_filter: "actions b = set (filter (\<lambda>(i, j). get_cell b i j = EMPTY) coords)"
  by (auto simp: actions_eq)

lemma card_actions_empties: "wf_board b \<Longrightarrow> card (actions b) = empties b"
proof -
  assume wf: "wf_board b"
  have "card (actions b) = length (filter (\<lambda>(i, j). get_cell b i j = EMPTY) coords)"
    unfolding actions_filter by (rule distinct_card) (simp add: distinct_coords)
  also have "\<dots> = empties b"
    by (simp only: length_filter_pairs map_get_cell_coords [OF wf] count_mark_def)
  finally show ?thesis .
qed

lemma empty_cell_iff_actions:
  "wf_board b \<Longrightarrow> list_ex (\<lambda>row. EMPTY \<in> set row) b \<longleftrightarrow> actions b \<noteq> {}"
proof -
  assume wf: "wf_board b"
  have "list_ex (\<lambda>row. EMPTY \<in> set row) b \<longleftrightarrow> EMPTY \<in> set (concat b)"
    by (auto simp: list_ex_iff)
  also have "\<dots> \<longleftrightarrow> EMPTY \<in> set (map (\<lambda>(i, j). get_cell b i j) coords)"
    by (simp only: map_get_cell_coords [OF wf])
  also have "\<dots> \<longleftrightarrow> actions b \<noteq> {}"
    by (simp add: actions_eq image_iff) (metis (mono_tags, lifting) case_prod_conv surj_pair)
  finally show ?thesis .
qed

section \<open>Move application\<close>

lemma result_Inr_iff:
  "result b (i, j) = Inr b' \<longleftrightarrow>
   py_in_range b i \<and> py_in_range (py_get b i) j \<and> py_get (py_get b i) j = EMPTY \<and>
   b' = py_set b i (py_set (py_get b i) j (Some (player b)))"
  by (auto simp: result_def py_nth_def py_get_def Let_def)

lemma result_row_error:
  "\<not> py_in_range b i \<Longrightarrow> result b (i, j) = Inl IndexError"
  by (simp add: result_def)

lemma result_col_error:
  "py_in_range b i \<Longrightarrow> \<not> py_in_range (py_get b i) j \<Longrightarrow> result b (i, j) = Inl IndexError"
  by (simp add: result_def)

lemma result_occupied_error:
  "py_in_range b i \<Longrightarrow> py_in_range (py_get b i) j \<Longrightarrow> py_get (py_get b i) j \<noteq> EMPTY \<Longrightarrow>
   result b (i, j) = Inl Exception"
  by (simp add: result_def)

lemma result_count_mark:
  assumes "result b a = Inr b'"
  shows "count_mark b' c + (if c = EMPTY then 1 else 0) =
         count_mark b c + (if c = Some (player b) then 1 else 0)"
proof -
  obtain i j where a: "a = (i, j)" by (cases a)
  let ?k = "nat (py_norm b i)"
  let ?row = "b ! ?k"
  let ?l = "nat (py_norm ?row j)"
  from assms a have ri: "py_in_range b i" and rj: "py_in_range ?row j"
    and free: "?row ! ?l = EMPTY"
    and b': "b' = b[?k := ?row[?l := Some (player b)]]"
    by (auto simp: result_Inr_iff py_get_def py_set_def)
  from ri have k: "?k < length b" by (rule py_norm_bounds)
  from rj have l: "?l < length ?row" by (rule py_norm_bounds)
  have row: "count_list (?row[?l := Some (player b)]) c + (if ?row ! ?l = c then 1 else 0) =
             count_list ?row c + (if Some (player b) = c then 1 else 0)"
    using l by (rule count_list_update)
  have "count_list (concat b') c + count_list ?row c =
        count_list (concat b) c + count_list (?row[?l := Some (player b)]) c"
    unfolding b' using k by (rule count_list_concat_update)
  with row free show ?thesis
    by (auto simp: count_mark_def split: if_splits)
qed

lemma result_empties: "result b a = Inr b' \<Longrightarrow> empties b' < empties b"
  using result_count_mark [of b a b' EMPTY] by simp

text \<open>On a well-formed board every index in \<open>[-3, 3)\<close> is in range and means \<open>i mod 3\<close>.\<close>

lemma py_norm_mod3: "length xs = 3 \<Longrightarrow> -3 \<le> i \<Longrightarrow> i < 3 \<Longrightarrow> py_norm xs i = i mod 3"
  by (simp add: py_norm_def) presburger

lemma py_index_mod3:
  assumes "length xs = 3" "-3 \<le> i" "i < 3"
  shows "py_nth xs i = py_nth xs (i mod 3) \<and> py_get xs i = py_get xs (i mod 3) \<and>
         py_set xs i = py_set xs (i mod 3)"
proof -
  have "py_norm xs i = py_norm xs (i mod 3)" "py_in_range xs i" "py_in_range xs (i mod 3)"
    using assms by (simp_all add: py_norm_mod3 py_in_range_iff)
  then show ?thesis by (simp add: py_nth_def py_get_def py_set_def fun_eq_iff)
qed

lemma wf_row_length:
  assumes "wf_board b" "-3 \<le> i" "i < 3"
  shows "length (py_get b i) = 3"
proof -
  from assms have "nat (py_norm b i) < 3"
    by (simp add: py_norm_mod3 wf_board_def)
  with assms(1) show ?thesis by (simp add: py_get_def wf_board_row)
qed

lemma wf_in_range:
  "wf_board b \<Longrightarrow> -3 \<le> i \<Longrightarrow> i < 3 \<Longrightarrow> py_in_range b i"
  by (simp add: py_in_range_iff wf_board_def)

lemma wf_row_in_range:
  "wf_board b \<Longrightarrow> -3 \<le> i \<Longrightarrow> i < 3 \<Longrightarrow> -3 \<le> j \<Longrightarrow> j < 3 \<Longrightarrow> py_in_range (py_get b i) j"
  by (simp add: py_in_range_iff wf_row_length)

lemma result_legal:
  assumes "wf_board b" "(i, j) \<in> actions b"
  shows "result b (i, j) = Inr (b[nat i := (b ! nat i)[nat j := Some (player b)]])"
proof -
  from assms(2) have r: "0 \<le> i" "i \<le> 2" "0 \<le> j" "j \<le> 2" and free: "get_cell b i j = EMPTY"
    by (auto simp: actions_eq mem_coords)
  from assms(1) r have "length (b ! nat i) = 3" by (simp add: wf_board_row)
  with assms(1) r free show ?thesis
    by (simp add: result_Inr_iff py_in_range_iff py_set_def get_cell_def wf_board_def)
qed

lemma result_wf:
  assumes "wf_board b" "result b a = Inr b'"
  shows "wf_board b'"
proof -
  obtain i j where a: "a = (i, j)" by (cases a)
  let ?k = "nat (py_norm b i)"
  from assms a have ri: "py_in_range b i"
    and b': "b' = b[?k := (b ! ?k)[nat (py_norm (b ! ?k) j) := Some (player b)]]"
    by (auto simp: result_Inr_iff py_get_def py_set_def)
  from ri assms(1) have "?k < 3" using py_norm_bounds by (fastforce simp: wf_board_def)
  with assms(1) show ?thesis
    unfolding b' by (simp add: wf_board_update wf_board_row)
qed

lemma result_get_cell:
  assumes "wf_board b" "result b (i, j) = Inr b'"
    and "0 \<le> k" "k \<le> 2" "0 \<le> l" "l \<le> 2"
  shows "get_cell b' k l = (if k = i mod 3 \<and> l = j mod 3 then Some (player b) else get_cell b k l)"
proof -
  from assms(2) have ri: "py_in_range b i" and rj: "py_in_range (py_get b i) j"
    and b': "b' = py_set b i (py_set (py_get b i) j (Some (player b)))"
    by (simp_all add: result_Inr_iff)
  from assms(1) ri have i: "-3 \<le> i" "i < 3" by (simp_all add: py_in_range_iff wf_board_def)
  with assms(1) rj have j: "-3 \<le> j" "j < 3" by (simp_all add: py_in_range_iff wf_row_length)
  from assms(1) i have row: "length (b ! nat (i mod 3)) = 3"
    using wf_row_length by (simp add: py_get_def py_norm_mod3 wf_board_def)
  with assms(1,3-6) i j show ?thesis
    by (simp add: b' py_set_def py_get_def get_cell_def py_norm_mod3 wf_board_def
        nth_list_update eq_nat_nat_iff)
qed

text \<open>A legal action of a well-formed board leads to a well-formed board with one free cell less.\<close>

lemma legal_result:
  assumes "wf_board b" "a \<in> actions b"
  obtains b' where "result b a = Inr b'" "wf_board b'" "empties b' < empties b"
proof -
  obtain i j where a: "a = (i, j)" by (cases a)
  with assms obtain b' where r: "result b a = Inr b'"
    using result_legal by blast
  with assms(1) have "wf_board b'" "empties b' < empties b"
    by (simp_all add: result_wf result_empties)
  with r show ?thesis by (rule that)
qed

section \<open>Winner, terminal test and utility\<close>

lemma player_wins_lines:
  "wf_board b \<Longrightarrow> player_wins b p \<longleftrightarrow> list_ex (owns_line b p) winning_lines"
  by (erule wf_board_cases)
    (simp add: player_wins_def winning_lines_def owns_line_def range3_def get_cell_def
      py_get_def py_norm_def not_int_def)

lemma winner_eq:
  "winner b = (if player_wins b X then Some X else if player_wins b O' then Some O' else None)"
  by (simp add: winner_def)

lemma terminal_iff: "wf_board b \<Longrightarrow> terminal b \<longleftrightarrow> winner b \<noteq> None \<or> actions b = {}"
  by (auto simp: terminal_def empty_cell_iff_actions)

lemma utility_range: "utility b \<in> {-1, 0, 1}"
  by (simp add: utility_def Let_def)

section \<open>Properties of the rules engine\<close>

text \<open>On the initial board it is \<^verbatim>\<open>X\<close>'s turn.\<close>

theorem player_initial_state: "player initial_state = X"
  by (simp add: player_def)

text \<open>
  C14: \<^verbatim>\<open>actions\<close> has one element per free cell: its size is nine minus the number of
  marked cells.
\<close>

theorem actions_card:
  "wf_board b \<Longrightarrow> card (actions b) = 9 - (count_mark b (Some X) + count_mark b (Some O'))"
  using card_actions_empties count_mark_sum by fastforce

theorem actions_card_witness:
  "wf_board initial_state \<and>
   card (actions initial_state) =
     9 - (count_mark initial_state (Some X) + count_mark initial_state (Some O'))"
  using actions_card [OF wf_initial_state] by simp

text \<open>
  C15: applying a legal action succeeds and yields a well-formed board that differs from
  the input exactly in the chosen cell, which holds the mark of the player to move.
\<close>

theorem result_legal_move:
  assumes "wf_board b" "(i, j) \<in> actions b"
  shows "\<exists>b'. result b (i, j) = Inr b' \<and> wf_board b' \<and>
           (\<forall>k l. 0 \<le> k \<and> k \<le> 2 \<and> 0 \<le> l \<and> l \<le> 2 \<longrightarrow>
              get_cell b' k l = (if (k, l) = (i, j) then Some (player b) else get_cell b k l))"
proof -
  from assms obtain b' where r: "result b (i, j) = Inr b'" and wf': "wf_board b'"
    by (rule legal_result)
  from assms(2) have "0 \<le> i" "i \<le> 2" "0 \<le> j" "j \<le> 2" by (simp_all add: actions_in_range)
  then have "i mod 3 = i" "j mod 3 = j" by simp_all
  with result_get_cell [OF assms(1) r] r wf' show ?thesis by auto
qed

theorem result_legal_move_witness:
  "wf_board initial_state \<and> (1, 1) \<in> actions initial_state \<and>
   (\<exists>b'. result initial_state (1, 1) = Inr b' \<and> wf_board b' \<and>
      (\<forall>k l. 0 \<le> k \<and> k \<le> 2 \<and> 0 \<le> l \<and> l \<le> 2 \<longrightarrow>
         get_cell b' k l =
           (if (k, l) = (1, 1) then Some (player initial_state) else get_cell initial_state k l)))"
proof -
  have a: "(1, 1) \<in> actions initial_state" by (simp add: board_eval)
  show ?thesis using result_legal_move [OF wf_initial_state a] a by simp
qed

text \<open>C16: a move on an occupied cell raises the bare \<^verbatim>\<open>Exception\<close>.\<close>

theorem result_occupied:
  assumes "wf_board b" "0 \<le> i" "i \<le> 2" "0 \<le> j" "j \<le> 2" "get_cell b i j \<noteq> EMPTY"
  shows "result b (i, j) = Inl Exception"
proof -
  from assms(1-3) have "length (b ! nat i) = 3" by (simp add: wf_board_row)
  with assms show ?thesis
    by (simp add: result_occupied_error py_in_range_iff wf_board_def get_cell_def)
qed

theorem result_occupied_witness:
  "wf_board [[Some X, None, None], [None, None, None], [None, None, None]] \<and>
   get_cell [[Some X, None, None], [None, None, None], [None, None, None]] 0 0 \<noteq> EMPTY \<and>
   result [[Some X, None, None], [None, None, None], [None, None, None]] (0, 0) = Inl Exception"
proof -
  have wf: "wf_board [[Some X, None, None], [None, None, None], [None, None, None]]"
    by (simp add: wf_board_def)
  have occ: "get_cell [[Some X, None, None], [None, None, None], [None, None, None]] 0 0 \<noteq> EMPTY"
    by (simp add: get_cell_def)
  show ?thesis using result_occupied [OF wf _ _ _ _ occ] wf occ by simp
qed

text \<open>
  C17: a coordinate outside \<open>[-3, 3)\<close> raises \<open>IndexError\<close> (from \<^verbatim>\<open>board[i]\<close> or
  \<^verbatim>\<open>board[i][j]\<close>), not the \<^verbatim>\<open>Exception\<close> of an occupied cell.
\<close>

theorem result_out_of_range:
  assumes "wf_board b" "\<not> (-3 \<le> i \<and> i < 3 \<and> -3 \<le> j \<and> j < 3)"
  shows "result b (i, j) = Inl IndexError"
proof (cases "-3 \<le> i \<and> i < 3")
  case True
  with assms have "\<not> py_in_range (py_get b i) j" by (auto simp: py_in_range_iff wf_row_length)
  with True assms(1) show ?thesis by (simp add: result_col_error wf_in_range)
next
  case False
  with assms(1) have "\<not> py_in_range b i" by (auto simp: py_in_range_iff wf_board_def)
  then show ?thesis by (rule result_row_error)
qed

theorem result_out_of_range_witness:
  "wf_board initial_state \<and> \<not> (-3 \<le> (3::int) \<and> (3::int) < 3 \<and> -3 \<le> (0::int) \<and> (0::int) < 3) \<and>
   result initial_state (3, 0) = Inl IndexError"
  using result_out_of_range [OF wf_initial_state, of 3 0] by simp

text \<open>
  C18: a negative coordinate in \<open>[-3, 0)\<close> is not rejected: Python indexing wraps it, so
  \<^verbatim>\<open>result\<close> marks the cell \<open>(i mod 3, j mod 3)\<close>.
\<close>

theorem result_negative_index:
  assumes "wf_board b" "-3 \<le> i" "i < 3" "-3 \<le> j" "j < 3"
  shows "result b (i, j) = result b (i mod 3, j mod 3)"
proof -
  from assms(1) have lb: "length b = 3" by (simp add: wf_board_def)
  have gb: "py_get b i = py_get b (i mod 3)"
    using py_index_mod3 [OF lb assms(2,3)] by simp
  have lr: "length (py_get b i) = 3"
    using wf_row_length [OF assms(1,2,3)] .
  have m: "-3 \<le> i mod 3" "i mod 3 < 3" "-3 \<le> j mod 3" "j mod 3 < 3" by simp_all
  have rb: "py_in_range b (i mod 3)" using wf_in_range [OF assms(1) m(1,2)] .
  have rr: "py_in_range (py_get b (i mod 3)) (j mod 3)"
    using wf_row_in_range [OF assms(1) m] .
  have eqs: "py_nth b i = py_nth b (i mod 3)" "py_set b i = py_set b (i mod 3)"
    "py_nth (py_get b (i mod 3)) j = py_nth (py_get b (i mod 3)) (j mod 3)"
    "py_get (py_get b (i mod 3)) j = py_get (py_get b (i mod 3)) (j mod 3)"
    "py_set (py_get b (i mod 3)) j = py_set (py_get b (i mod 3)) (j mod 3)"
    using py_index_mod3 [OF lb assms(2,3)] py_index_mod3 [OF lr [unfolded gb] assms(4,5)] by simp_all
  show ?thesis
    unfolding result_def Let_def split_conv gb using rb rr by (simp add: eqs del: py_get_nonneg)
qed

theorem result_negative_index_witness:
  "wf_board initial_state \<and>
   result initial_state (-1, 0) = result initial_state (2, 0) \<and>
   result initial_state (-1, 0) = Inr [[None, None, None], [None, None, None], [Some X, None, None]]"
proof -
  have "result initial_state (-1, 0) = result initial_state ((-1) mod 3, 0 mod 3)"
    by (rule result_negative_index [OF wf_initial_state]) simp_all
  moreover have "result initial_state (2, 0) = Inr [[None, None, None], [None, None, None], [Some X, None, None]]"
    by (simp add: board_eval)
  ultimately show ?thesis by simp
qed

text \<open>
  C19: a successful move keeps the board three by three and fills exactly one free cell.
\<close>

theorem result_fills_one_cell:
  "wf_board b \<Longrightarrow> result b a = Inr b' \<Longrightarrow> wf_board b' \<and> empties b' + 1 = empties b"
  using result_wf result_count_mark [of b a b' EMPTY] by simp

theorem result_fills_one_cell_witness:
  "wf_board initial_state \<and>
   result initial_state (1, 1) = Inr [[None, None, None], [None, Some X, None], [None, None, None]] \<and>
   wf_board [[None, None, None], [None, Some X, None], [None, None, None]] \<and>
   empties [[None, None, None], [None, Some X, None], [None, None, None]] + 1 = empties initial_state"
proof -
  have r: "result initial_state (1, 1) = Inr [[None, None, None], [None, Some X, None], [None, None, None]]"
    by (simp add: board_eval)
  show ?thesis using result_fills_one_cell [OF wf_initial_state r] r by simp
qed

text \<open>
  C20: \<^verbatim>\<open>terminal\<close> holds exactly when some player owns a line or no legal action is
  left.
\<close>

theorem terminal_spec:
  "wf_board b \<Longrightarrow> terminal b \<longleftrightarrow> (\<exists>p. player_wins b p) \<or> actions b = {}"
  by (auto simp: terminal_iff winner_eq) (metis player_not_X)

theorem terminal_spec_witness:
  "wf_board initial_state \<and> \<not> terminal initial_state \<and>
   (terminal initial_state \<longleftrightarrow> (\<exists>p. player_wins initial_state p) \<or> actions initial_state = {})"
proof -
  have "\<not> terminal initial_state" by (simp add: board_eval)
  then show ?thesis using terminal_spec [OF wf_initial_state] by simp
qed

text \<open>
  C21: \<^verbatim>\<open>winner\<close> agrees with the spec's eight lines, and when both marks own a line it
  returns \<^verbatim>\<open>X\<close>, the first mark of its loop.
\<close>

theorem winner_spec:
  "wf_board b \<Longrightarrow>
   winner b = (if list_ex (owns_line b X) winning_lines then Some X
               else if list_ex (owns_line b O') winning_lines then Some O' else None)"
  by (simp add: winner_eq player_wins_lines)

theorem winner_spec_witness:
  "wf_board [[Some X, Some X, Some X], [Some O', Some O', Some O'], [None, None, None]] \<and>
   list_ex (owns_line [[Some X, Some X, Some X], [Some O', Some O', Some O'], [None, None, None]] O')
     winning_lines \<and>
   winner [[Some X, Some X, Some X], [Some O', Some O', Some O'], [None, None, None]] = Some X"
proof -
  have wf: "wf_board [[Some X, Some X, Some X], [Some O', Some O', Some O'], [None, None, None]]"
    by (simp add: wf_board_def)
  show ?thesis
    using winner_spec [OF wf] wf by (simp add: winning_lines_def owns_line_def get_cell_def)
qed

text \<open>
  The anti-diagonal check \<^verbatim>\<open>board[i][~i]\<close> reads exactly the cells
  \<open>(0, 2), (1, 1), (2, 0)\<close>.
\<close>

theorem anti_diagonal_cells:
  "wf_board b \<Longrightarrow>
   map (\<lambda>i. py_get (py_get b i) (NOT i)) range3 = [get_cell b 0 2, get_cell b 1 1, get_cell b 2 0]"
  by (erule wf_board_cases) (simp add: range3_def get_cell_def py_get_def py_norm_def not_int_def)

theorem anti_diagonal_cells_witness:
  "wf_board [[None, None, Some X], [None, Some O', None], [Some X, None, None]] \<and>
   map (\<lambda>i. py_get (py_get [[None, None, Some X], [None, Some O', None], [Some X, None, None]] i) (NOT i))
     range3 = [Some X, Some O', Some X]"
proof -
  have wf: "wf_board [[None, None, Some X], [None, Some O', None], [Some X, None, None]]"
    by (simp add: wf_board_def)
  show ?thesis using anti_diagonal_cells [OF wf] wf by (simp add: get_cell_def)
qed

text \<open>
  A full board on which nobody owns a line is terminal with utility 0 (a draw).
\<close>

theorem full_board_draw:
  assumes "wf_board b" "actions b = {}" "\<not> player_wins b X" "\<not> player_wins b O'"
  shows "terminal b \<and> utility b = 0"
  using assms by (simp add: terminal_iff winner_eq utility_def)

theorem full_board_draw_witness:
  "wf_board [[Some X, Some O', Some X], [Some X, Some O', Some O'], [Some O', Some X, Some X]] \<and>
   actions [[Some X, Some O', Some X], [Some X, Some O', Some O'], [Some O', Some X, Some X]] = {} \<and>
   \<not> player_wins [[Some X, Some O', Some X], [Some X, Some O', Some O'], [Some O', Some X, Some X]] X \<and>
   \<not> player_wins [[Some X, Some O', Some X], [Some X, Some O', Some O'], [Some O', Some X, Some X]] O' \<and>
   terminal [[Some X, Some O', Some X], [Some X, Some O', Some O'], [Some O', Some X, Some X]] \<and>
   utility [[Some X, Some O', Some X], [Some X, Some O', Some O'], [Some O', Some X, Some X]] = 0"
proof -
  let ?b = "[[Some X, Some O', Some X], [Some X, Some O', Some O'], [Some O', Some X, Some X]]"
  have h: "wf_board ?b" "actions ?b = {}" "\<not> player_wins ?b X" "\<not> player_wins ?b O'"
    by (simp_all add: wf_board_def board_eval)
  show ?thesis using full_board_draw [OF h] h by simp
qed

end
