(* ===== verification/Reach.thy ===== *)
theory Reach
  imports Rules
begin

text \<open>
  Boards of legal play. The engine trusts that every board it sees was produced by
  \<^verbatim>\<open>result\<close> from \<^verbatim>\<open>initial_state\<close>, moving only while the game is not over (the
  search recurses only below non-terminal boards). \<open>reachable\<close> is that set of boards, as
  an inductive step relation; \<open>turn_inv\<close> is the count invariant of the spec (as many
  \<^verbatim>\<open>X\<close> marks as \<^verbatim>\<open>O\<close> marks, or one more) and \<open>line_inv\<close> says that only the
  player who just moved can own a line. Both hold on every reachable board.
\<close>

inductive reachable :: "board \<Rightarrow> bool" where
  initial: "reachable initial_state"
| move: "reachable b \<Longrightarrow> \<not> terminal b \<Longrightarrow> result b a = Inr b' \<Longrightarrow> reachable b'"

definition turn_inv :: "board \<Rightarrow> bool" where
  "turn_inv b \<longleftrightarrow>
     wf_board b \<and>
     (count_mark b (Some X) = count_mark b (Some O') \<or>
      count_mark b (Some X) = Suc (count_mark b (Some O')))"

definition line_inv :: "board \<Rightarrow> bool" where
  "line_inv b \<longleftrightarrow>
     (player_wins b X \<longrightarrow> player b = O') \<and> (player_wins b O' \<longrightarrow> player b = X)"

text \<open>
  \<open>play b n b'\<close>: the game driver's loop from \<open>b\<close>, \<open>n\<close> moves of legal play, each applied
  by \<^verbatim>\<open>result\<close> to a board that is not yet terminal.
\<close>

inductive play :: "board \<Rightarrow> nat \<Rightarrow> board \<Rightarrow> bool" where
  start: "play b 0 b"
| step: "play b n b' \<Longrightarrow> \<not> terminal b' \<Longrightarrow> result b' a = Inr b'' \<Longrightarrow> play b (Suc n) b''"

section \<open>The count invariant\<close>

lemma result_count_player:
  "result b a = Inr b' \<Longrightarrow>
   count_mark b' (Some p) = count_mark b (Some p) + (if p = player b then 1 else 0)"
  using result_count_mark [of b a b' "Some p"] by simp

lemma turn_inv_initial: "turn_inv initial_state"
  by (simp add: turn_inv_def)

lemma turn_inv_player:
  "turn_inv b \<Longrightarrow>
   player b = (if count_mark b (Some X) = count_mark b (Some O') then X else O')"
  by (auto simp: turn_inv_def player_eq)

lemma result_counts_cases:
  assumes "turn_inv b" "result b a = Inr b'"
  shows "(player b = X \<and> count_mark b (Some X) = count_mark b (Some O') \<and>
          count_mark b' (Some X) = Suc (count_mark b (Some X)) \<and>
          count_mark b' (Some O') = count_mark b (Some O')) \<or>
         (player b = O' \<and> count_mark b (Some X) = Suc (count_mark b (Some O')) \<and>
          count_mark b' (Some X) = count_mark b (Some X) \<and>
          count_mark b' (Some O') = Suc (count_mark b (Some O')))"
proof (cases "count_mark b (Some X) = count_mark b (Some O')")
  case True
  with assms(1) have "player b = X" by (simp add: turn_inv_player)
  with True assms(2) show ?thesis by (simp add: result_count_player)
next
  case False
  with assms(1) have "player b = O'" and "count_mark b (Some X) = Suc (count_mark b (Some O'))"
    by (simp_all add: turn_inv_player turn_inv_def)
  with assms(2) show ?thesis by (simp add: result_count_player)
qed

lemma turn_inv_result:
  assumes "turn_inv b" "result b a = Inr b'"
  shows "turn_inv b'"
proof -
  from assms have "wf_board b'"
    by (auto simp: turn_inv_def intro: result_wf)
  with result_counts_cases [OF assms] show ?thesis
    by (auto simp: turn_inv_def)
qed

lemma result_player_alternates:
  assumes "turn_inv b" "result b a = Inr b'"
  shows "player b' \<noteq> player b"
proof -
  from assms have "turn_inv b'" by (rule turn_inv_result)
  with result_counts_cases [OF assms] show ?thesis
    by (auto simp: turn_inv_player)
qed

section \<open>Only the last mover owns a line\<close>

lemma winning_lines_in_range:
  "l \<in> set winning_lines \<Longrightarrow> (k, m) \<in> set l \<Longrightarrow> 0 \<le> k \<and> k \<le> 2 \<and> 0 \<le> m \<and> m \<le> 2"
  by (auto simp: winning_lines_def)

lemma result_keeps_other_lines:
  assumes wf: "wf_board b" and r: "result b (i, j) = Inr b'"
    and q: "q \<noteq> player b" and wins: "player_wins b' q"
  shows "player_wins b q"
proof -
  have wf': "wf_board b'" using wf r by (rule result_wf)
  from wins wf' obtain l where l: "l \<in> set winning_lines" and own: "owns_line b' q l"
    by (auto simp: player_wins_lines list_ex_iff)
  have "owns_line b q l"
    unfolding owns_line_def list_all_iff
  proof (intro ballI, clarify)
    fix k m assume km: "(k, m) \<in> set l"
    with own have "get_cell b' k m = Some q" by (auto simp: owns_line_def list_all_iff)
    moreover from l km have "0 \<le> k" "k \<le> 2" "0 \<le> m" "m \<le> 2"
      by (auto dest: winning_lines_in_range)
    ultimately show "get_cell b k m = Some q"
      using result_get_cell [OF wf r] q by (auto split: if_splits)
  qed
  with wf l show ?thesis by (auto simp: player_wins_lines list_ex_iff)
qed

lemma no_wins_initial: "\<not> player_wins initial_state p"
proof -
  have "\<not> list_ex (owns_line initial_state p) winning_lines"
    by (simp add: winning_lines_def owns_line_def initial_state_def get_cell_def)
  then show ?thesis by (simp add: player_wins_lines)
qed

lemma line_inv_initial: "line_inv initial_state"
  by (simp add: line_inv_def no_wins_initial)

lemma not_terminal_no_wins: "\<not> terminal b \<Longrightarrow> \<not> player_wins b p"
  by (cases p) (auto simp: terminal_def winner_eq split: if_splits)

lemma line_inv_result:
  assumes inv: "turn_inv b" and nt: "\<not> terminal b" and r: "result b a = Inr b'"
  shows "line_inv b'"
proof -
  obtain i j where a: "a = (i, j)" by (cases a)
  from inv have wf: "wf_board b" by (simp add: turn_inv_def)
  have only: "player_wins b' q \<Longrightarrow> q = player b" for q
    using result_keeps_other_lines [OF wf r [unfolded a]] not_terminal_no_wins [OF nt] by blast
  have "player b' \<noteq> player b" using inv r by (rule result_player_alternates)
  then show ?thesis
    unfolding line_inv_def using only by (metis player_not_X)
qed

section \<open>Reachable boards\<close>

lemma reachable_invs: "reachable b \<Longrightarrow> turn_inv b \<and> line_inv b"
proof (induction rule: reachable.induct)
  case initial
  show ?case by (simp add: turn_inv_initial line_inv_initial)
next
  case (move b a b')
  then show ?case by (auto intro: turn_inv_result line_inv_result)
qed

lemma reachable_turn_inv: "reachable b \<Longrightarrow> turn_inv b"
  by (simp add: reachable_invs)

lemma reachable_wf: "reachable b \<Longrightarrow> wf_board b"
  using reachable_turn_inv turn_inv_def by blast

lemma reachable_line_inv: "reachable b \<Longrightarrow> line_inv b"
  by (simp add: reachable_invs)

section \<open>Games end\<close>

lemma result_empties_eq: "result b a = Inr b' \<Longrightarrow> Suc (empties b') = empties b"
  using result_count_mark [of b a b' EMPTY] by simp

lemma play_empties: "play b n b' \<Longrightarrow> empties b' + n = empties b"
  by (induction rule: play.induct) (auto dest: result_empties_eq)

lemma play_reachable: "play b n b' \<Longrightarrow> reachable b \<Longrightarrow> reachable b'"
  by (induction rule: play.induct) (auto intro: reachable.move)

lemma reachable_progress:
  assumes "reachable b" "\<not> terminal b"
  shows "\<exists>a b'. result b a = Inr b'"
proof -
  have wf: "wf_board b" using assms(1) by (rule reachable_wf)
  with assms(2) have "actions b \<noteq> {}" by (simp add: terminal_iff)
  then obtain a where "a \<in> actions b" by blast
  from legal_result [OF wf this] obtain b' where "result b a = Inr b'" by blast
  then show ?thesis by blast
qed

lemma empties_initial [simp]: "empties initial_state = 9"
  by (simp add: count_mark_def initial_state_def)

section \<open>Properties of legal play\<close>

text \<open>
  C10: on every board of legal play \<^verbatim>\<open>X\<close> has as many marks as \<^verbatim>\<open>O\<close> or exactly
  one more.
\<close>

theorem reachable_counts:
  "reachable b \<Longrightarrow>
   count_mark b (Some X) = count_mark b (Some O') \<or>
   count_mark b (Some X) = Suc (count_mark b (Some O'))"
  using reachable_turn_inv turn_inv_def by blast

theorem reachable_counts_witness:
  "reachable [[None, None, None], [None, Some X, None], [None, None, None]] \<and>
   count_mark [[None, None, None], [None, Some X, None], [None, None, None]] (Some X) =
     Suc (count_mark [[None, None, None], [None, Some X, None], [None, None, None]] (Some O'))"
proof -
  have "reachable [[None, None, None], [None, Some X, None], [None, None, None]]"
    by (rule reachable.move [OF reachable.initial, of "(1, 1)"]) (simp_all add: board_eval)
  with reachable_counts [OF this] show ?thesis by (simp add: count_mark_def)
qed

text \<open>
  C11: after any move on a board of legal play, \<^verbatim>\<open>player\<close> names the other player.
\<close>

theorem player_alternates:
  "reachable b \<Longrightarrow> result b a = Inr b' \<Longrightarrow> player b' \<noteq> player b"
  using reachable_turn_inv result_player_alternates by blast

theorem player_alternates_witness:
  "reachable initial_state \<and>
   result initial_state (1, 1) = Inr [[None, None, None], [None, Some X, None], [None, None, None]] \<and>
   player [[None, None, None], [None, Some X, None], [None, None, None]] = O' \<and>
   player initial_state = X"
proof -
  have r: "result initial_state (1, 1) = Inr [[None, None, None], [None, Some X, None], [None, None, None]]"
    by (simp add: board_eval)
  have "player [[None, None, None], [None, Some X, None], [None, None, None]] \<noteq> player initial_state"
    by (rule player_alternates [OF reachable.initial r])
  with r reachable.initial show ?thesis by (simp add: board_eval)
qed

text \<open>
  C12: on a board of legal play at most one player owns a line, so the order in which
  \<^verbatim>\<open>winner\<close> tries the marks never matters there.
\<close>

theorem reachable_one_winner:
  "reachable b \<Longrightarrow> \<not> (player_wins b X \<and> player_wins b O')"
  using reachable_line_inv line_inv_def by fastforce

theorem reachable_one_winner_witness:
  "reachable initial_state \<and> \<not> (player_wins initial_state X \<and> player_wins initial_state O')"
  using reachable_one_winner [OF reachable.initial] reachable.initial by simp

text \<open>
  C13: on a board of legal play \<^verbatim>\<open>utility\<close> is 1 exactly when \<^verbatim>\<open>X\<close> owns a line,
  -1 exactly when \<^verbatim>\<open>O\<close> does, and 0 exactly when there is no winner.
\<close>

theorem reachable_utility:
  assumes "reachable b"
  shows "(utility b = 1 \<longleftrightarrow> player_wins b X) \<and> (utility b = -1 \<longleftrightarrow> player_wins b O') \<and>
         (utility b = 0 \<longleftrightarrow> winner b = None)"
proof -
  from assms have "line_inv b" by (rule reachable_line_inv)
  then have "\<not> (player_wins b X \<and> player_wins b O')" by (auto simp: line_inv_def)
  then show ?thesis by (auto simp: utility_def winner_eq)
qed

theorem reachable_utility_witness:
  "reachable initial_state \<and> utility initial_state = 0 \<and> winner initial_state = None"
  using reachable_utility [OF reachable.initial] reachable.initial no_wins_initial
  by (simp add: winner_eq)

text \<open>
  C36: every game played from \<^verbatim>\<open>initial_state\<close> by applying \<^verbatim>\<open>result\<close> while the
  board is not terminal lasts at most nine moves, and as long as it is not over there is a
  legal move to play.
\<close>

theorem game_ends:
  assumes "play initial_state n b"
  shows "n \<le> 9 \<and> (\<not> terminal b \<longrightarrow> (\<exists>a b'. result b a = Inr b'))"
proof -
  have "n \<le> 9" using play_empties [OF assms] by simp
  moreover have "reachable b" using play_reachable [OF assms reachable.initial] .
  ultimately show ?thesis using reachable_progress by blast
qed

theorem game_ends_witness:
  "play initial_state 1 [[None, None, None], [None, Some X, None], [None, None, None]] \<and>
   1 \<le> (9::nat) \<and>
   (\<exists>a b'. result [[None, None, None], [None, Some X, None], [None, None, None]] a = Inr b')"
proof -
  have p: "play initial_state 1 [[None, None, None], [None, Some X, None], [None, None, None]]"
    using play.step [OF play.start, of initial_state "(1, 1)"] by (simp add: board_eval)
  have "\<not> terminal [[None, None, None], [None, Some X, None], [None, None, None]]"
    by (simp add: board_eval)
  with game_ends [OF p] p show ?thesis by simp
qed

end
