(* ===== verification/Search.thy ===== *)
theory Search
  imports Reach
begin

text \<open>
  The search engine of \<^verbatim>\<open>tictactoe.py\<close>: \<^verbatim>\<open>minimax\<close> with its inner functions
  \<^verbatim>\<open>max_value\<close> and \<^verbatim>\<open>min_value\<close>, each a loop over \<^verbatim>\<open>actions(board)\<close> that
  keeps the best value so far (initially \<^verbatim>\<open>-5\<close>, resp. \<^verbatim>\<open>5\<close>) and replaces the
  remembered move only on a strict improvement. The loops are the functions \<open>max_loop\<close>
  and \<open>min_loop\<close>; \<^verbatim>\<open>optimal_move = ()\<close> is \<open>Unset\<close>.

  \<^verbatim>\<open>actions\<close> returns a Python set, whose iteration order CPython does not specify.
  The search is therefore parameterised by a set iterator \<open>it\<close>: the loop runs over
  \<open>it (actions b)\<close>, and the theorems hold for every iterator that enumerates the set
  (\<open>valid_iter\<close>). The abstract specification is the game value: \<open>maxmin\<close> and
  \<open>minmax\<close> evaluate the game tree with the roles fixed by the recursion, as
  \<^verbatim>\<open>max_value\<close> and \<^verbatim>\<open>min_value\<close> do, and \<open>game_value\<close> lets the player to
  move (inferred by \<^verbatim>\<open>player\<close>) choose.
\<close>

datatype optimal_move = Unset | Move action

type_synonym set_iter = "action set \<Rightarrow> action list"

definition valid_iter :: "set_iter \<Rightarrow> bool" where
  "valid_iter it \<longleftrightarrow> (\<forall>S. finite S \<longrightarrow> set (it S) = S)"

section \<open>The search as written\<close>

function max_value :: "set_iter \<Rightarrow> board \<Rightarrow> py_error + int \<times> optimal_move"
  and min_value :: "set_iter \<Rightarrow> board \<Rightarrow> py_error + int \<times> optimal_move"
  and max_loop :: "set_iter \<Rightarrow> board \<Rightarrow> action list \<Rightarrow> int \<Rightarrow> optimal_move \<Rightarrow> py_error + int \<times> optimal_move"
  and min_loop :: "set_iter \<Rightarrow> board \<Rightarrow> action list \<Rightarrow> int \<Rightarrow> optimal_move \<Rightarrow> py_error + int \<times> optimal_move"
where
  "max_value it b =
     (let optimal_move = Unset in
      if terminal b then Inr (utility b, optimal_move)
      else max_loop it b (it (actions b)) (-5) optimal_move)"
| "max_loop it b [] v optimal_move = Inr (v, optimal_move)"
| "max_loop it b (action # acts) v optimal_move =
     (case result b action of
        Inl e \<Rightarrow> Inl e
      | Inr b' \<Rightarrow>
          (case min_value it b' of
             Inl e \<Rightarrow> Inl e
           | Inr r \<Rightarrow>
               (let minval = fst r in
                if minval > v then max_loop it b acts minval (Move action)
                else max_loop it b acts v optimal_move)))"
| "min_value it b =
     (let optimal_move = Unset in
      if terminal b then Inr (utility b, optimal_move)
      else min_loop it b (it (actions b)) 5 optimal_move)"
| "min_loop it b [] v optimal_move = Inr (v, optimal_move)"
| "min_loop it b (action # acts) v optimal_move =
     (case result b action of
        Inl e \<Rightarrow> Inl e
      | Inr b' \<Rightarrow>
          (case max_value it b' of
             Inl e \<Rightarrow> Inl e
           | Inr r \<Rightarrow>
               (let maxval = fst r in
                if maxval < v then min_loop it b acts maxval (Move action)
                else min_loop it b acts v optimal_move)))"
  by pat_completeness auto
termination
proof (relation "measures
    [\<lambda>x. case x of Inl (Inl (it, b)) \<Rightarrow> empties b | Inl (Inr (it, b)) \<Rightarrow> empties b
                | Inr (Inl (it, b, as, v, m)) \<Rightarrow> empties b | Inr (Inr (it, b, as, v, m)) \<Rightarrow> empties b,
     \<lambda>x. case x of Inl _ \<Rightarrow> 1 | Inr _ \<Rightarrow> 0,
     \<lambda>x. case x of Inl _ \<Rightarrow> 0 | Inr (Inl (it, b, as, v, m)) \<Rightarrow> length as
                | Inr (Inr (it, b, as, v, m)) \<Rightarrow> length as]")
qed (auto dest: result_empties)
text \<open>
  \<^verbatim>\<open>minimax\<close>: \<open>None\<close> is Python's \<^verbatim>\<open>None\<close> for a finished game; otherwise the
  move component of \<^verbatim>\<open>max_value\<close> or \<^verbatim>\<open>min_value\<close>, by the player to move.
\<close>

definition minimax :: "set_iter \<Rightarrow> board \<Rightarrow> py_error + optimal_move option" where
  "minimax it b =
     (let curr_player = player b in
      if terminal b then Inr None
      else if curr_player = X then
        (case max_value it b of Inl e \<Rightarrow> Inl e | Inr r \<Rightarrow> Inr (Some (snd r)))
      else (case min_value it b of Inl e \<Rightarrow> Inl e | Inr r \<Rightarrow> Inr (Some (snd r))))"

section \<open>The game value\<close>

text \<open>
  Minimax evaluation of the game tree below a board. A move that \<open>result\<close> rejects never
  occurs for an element of \<open>actions b\<close> on a well-formed board (\<open>result_legal\<close>), so
  the \<open>Inl\<close> branch is never taken there.
\<close>

function maxmin :: "board \<Rightarrow> int" and minmax :: "board \<Rightarrow> int" where
  "maxmin b =
     (if terminal b then utility b
      else Max ((\<lambda>a. case result b a of Inl _ \<Rightarrow> 0 | Inr b' \<Rightarrow> minmax b') ` actions b))"
| "minmax b =
     (if terminal b then utility b
      else Min ((\<lambda>a. case result b a of Inl _ \<Rightarrow> 0 | Inr b' \<Rightarrow> maxmin b') ` actions b))"
  by pat_completeness auto
termination
  by (relation "measure (\<lambda>x. case x of Inl b \<Rightarrow> empties b | Inr b \<Rightarrow> empties b)")
    (auto dest: result_empties)

function game_value :: "board \<Rightarrow> int" where
  "game_value b =
     (if terminal b then utility b
      else (if player b = X then Max else Min)
             ((\<lambda>a. case result b a of Inl _ \<Rightarrow> 0 | Inr b' \<Rightarrow> game_value b') ` actions b))"
  by pat_completeness auto
termination
  by (relation "measure empties") (auto dest: result_empties)

definition action_value :: "board \<Rightarrow> action \<Rightarrow> int" where
  "action_value b a = (case result b a of Inl _ \<Rightarrow> 0 | Inr b' \<Rightarrow> game_value b')"

text \<open>
  The values the two loops compare, and the move a loop settles on: the first action of the
  iteration order whose value is the best one.
\<close>

definition max_child :: "board \<Rightarrow> action \<Rightarrow> int" where
  "max_child b a = (case result b a of Inl _ \<Rightarrow> 0 | Inr b' \<Rightarrow> minmax b')"

definition min_child :: "board \<Rightarrow> action \<Rightarrow> int" where
  "min_child b a = (case result b a of Inl _ \<Rightarrow> 0 | Inr b' \<Rightarrow> maxmin b')"

definition first_best :: "set_iter \<Rightarrow> (action \<Rightarrow> int) \<Rightarrow> int \<Rightarrow> board \<Rightarrow> optimal_move" where
  "first_best it f v b = (case find (\<lambda>a. f a = v) (it (actions b)) of None \<Rightarrow> Unset | Some a \<Rightarrow> Move a)"

text \<open>The two concrete boards of the spec's list of testable properties.\<close>

abbreviation spec_board_1 :: board where
  "spec_board_1 \<equiv> [[Some X, Some X, EMPTY], [Some O', Some O', EMPTY], [EMPTY, EMPTY, EMPTY]]"

abbreviation spec_board_2 :: board where
  "spec_board_2 \<equiv> [[Some X, Some O', Some X], [Some X, Some O', Some O'], [EMPTY, EMPTY, EMPTY]]"

declare max_value.simps [simp del] min_value.simps [simp del]
declare maxmin.simps [simp del] minmax.simps [simp del] game_value.simps [simp del]

section \<open>The loops\<close>

text \<open>
  When every child evaluation succeeds with value \<open>f a\<close>, the loop returns the best of
  the initial bound and the children's values, and the first action of the iteration
  order that reaches it, provided it beats the initial bound.
\<close>

lemma max_loop_eq:
  assumes "\<forall>a\<in>set as. \<exists>b' m'. result b a = Inr b' \<and> min_value it b' = Inr (f a, m')"
  shows "max_loop it b as v m =
           Inr (Max (insert v (f ` set as)),
                if v < Max (insert v (f ` set as))
                then (case find (\<lambda>x. f x = Max (insert v (f ` set as))) as of
                        None \<Rightarrow> m | Some x \<Rightarrow> Move x)
                else m)"
  using assms
proof (induction as arbitrary: v m)
  case Nil
  then show ?case by simp
next
  case (Cons a as)
  from Cons.prems obtain b' m' where r: "result b a = Inr b'" and mv: "min_value it b' = Inr (f a, m')"
    by auto
  from Cons.prems have prems: "\<forall>a\<in>set as. \<exists>b' m'. result b a = Inr b' \<and> min_value it b' = Inr (f a, m')"
    by simp
  show ?case
  proof (cases "v < f a")
    case True
    let ?M = "Max (insert (f a) (f ` set as))"
    have M: "Max (insert v (f ` set (a # as))) = ?M"
      unfolding list.set(2) image_insert
      by (rule Max_insert_gt [OF finite_imageI [OF finite_set] True])
    have le: "f a \<le> ?M" by simp
    have step: "max_loop it b (a # as) v m = max_loop it b as (f a) (Move a)"
      using r mv True by simp
    have found: "f a \<noteq> ?M \<Longrightarrow> find (\<lambda>x. f x = ?M) as \<noteq> None"
      using Max_in [of "insert (f a) (f ` set as)"] by (auto simp: find_None_iff) blast
    show ?thesis
      unfolding step M using Cons.IH [OF prems, of "f a" "Move a"] le True found
        order.strict_trans2 [OF True le]
      by (cases "f a = ?M") (auto split: option.splits)
  next
    case False
    let ?M = "Max (insert v (f ` set as))"
    have M: "Max (insert v (f ` set (a # as))) = ?M"
      unfolding list.set(2) image_insert using False
      by (intro Max_insert_le [OF finite_imageI [OF finite_set]]) simp
    have le: "v \<le> ?M" by simp
    have step: "max_loop it b (a # as) v m = max_loop it b as v m"
      using r mv False by simp
    show ?thesis
      unfolding step M using Cons.IH [OF prems, of v m] le False by (auto split: option.splits)
  qed
qed

lemma min_loop_eq:
  assumes "\<forall>a\<in>set as. \<exists>b' m'. result b a = Inr b' \<and> max_value it b' = Inr (f a, m')"
  shows "min_loop it b as v m =
           Inr (Min (insert v (f ` set as)),
                if Min (insert v (f ` set as)) < v
                then (case find (\<lambda>x. f x = Min (insert v (f ` set as))) as of
                        None \<Rightarrow> m | Some x \<Rightarrow> Move x)
                else m)"
  using assms
proof (induction as arbitrary: v m)
  case Nil
  then show ?case by simp
next
  case (Cons a as)
  from Cons.prems obtain b' m' where r: "result b a = Inr b'" and mv: "max_value it b' = Inr (f a, m')"
    by auto
  from Cons.prems have prems: "\<forall>a\<in>set as. \<exists>b' m'. result b a = Inr b' \<and> max_value it b' = Inr (f a, m')"
    by simp
  show ?case
  proof (cases "f a < v")
    case True
    let ?M = "Min (insert (f a) (f ` set as))"
    have M: "Min (insert v (f ` set (a # as))) = ?M"
      unfolding list.set(2) image_insert
      by (rule Min_insert_lt [OF finite_imageI [OF finite_set] True])
    have le: "?M \<le> f a" by simp
    have step: "min_loop it b (a # as) v m = min_loop it b as (f a) (Move a)"
      using r mv True by simp
    have found: "f a \<noteq> ?M \<Longrightarrow> find (\<lambda>x. f x = ?M) as \<noteq> None"
      using Min_in [of "insert (f a) (f ` set as)"] by (auto simp: find_None_iff) blast
    show ?thesis
      unfolding step M using Cons.IH [OF prems, of "f a" "Move a"] le True found
        order.strict_trans1 [OF le True]
      by (cases "f a = ?M") (auto split: option.splits)
  next
    case False
    let ?M = "Min (insert v (f ` set as))"
    have M: "Min (insert v (f ` set (a # as))) = ?M"
      unfolding list.set(2) image_insert using False
      by (intro Min_insert_ge [OF finite_imageI [OF finite_set]]) simp
    have le: "?M \<le> v" by simp
    have step: "min_loop it b (a # as) v m = min_loop it b as v m"
      using r mv False by simp
    show ?thesis
      unfolding step M using Cons.IH [OF prems, of v m] le False by (auto split: option.splits)
  qed
qed


section \<open>The search computes the game value\<close>

lemma maxmin_unfold: "\<not> terminal b \<Longrightarrow> maxmin b = Max (max_child b ` actions b)"
  by (simp add: maxmin.simps max_child_def)

lemma minmax_unfold: "\<not> terminal b \<Longrightarrow> minmax b = Min (min_child b ` actions b)"
  by (simp add: minmax.simps min_child_def)

lemma utility_bounds: "utility b \<in> {-1..1}"
  using utility_range [of b] by auto

lemma maxmin_minmax_range:
  "wf_board b \<Longrightarrow> maxmin b \<in> {-1..1} \<and> minmax b \<in> {-1..1}"
proof (induction "empties b" arbitrary: b rule: less_induct)
  case less
  show ?case
  proof (cases "terminal b")
    case True
    then show ?thesis using utility_bounds [of b] by (simp add: maxmin.simps minmax.simps)
  next
    case False
    with less.prems have ne: "actions b \<noteq> {}" by (simp add: terminal_iff)
    have "\<forall>a\<in>actions b. max_child b a \<in> {-1..1} \<and> min_child b a \<in> {-1..1}"
    proof
      fix a assume "a \<in> actions b"
      with less.prems obtain b' where "result b a = Inr b'" "wf_board b'" "empties b' < empties b"
        by (rule legal_result)
      with less.hyps show "max_child b a \<in> {-1..1} \<and> min_child b a \<in> {-1..1}"
        by (simp add: max_child_def min_child_def)
    qed
    then have "maxmin b \<in> {-1..1}" "minmax b \<in> {-1..1}"
      unfolding maxmin_unfold [OF False] minmax_unfold [OF False]
      using ne by (intro Max_image_in Min_image_in; auto)+
    then show ?thesis by simp
  qed
qed

lemma search_eq:
  assumes it: "valid_iter it"
  shows "wf_board b \<Longrightarrow>
    max_value it b =
      Inr (maxmin b, if terminal b then Unset else first_best it (max_child b) (maxmin b) b) \<and>
    min_value it b =
      Inr (minmax b, if terminal b then Unset else first_best it (min_child b) (minmax b) b)"
proof (induction "empties b" arbitrary: b rule: less_induct)
  case less
  show ?case
  proof (cases "terminal b")
    case True
    then show ?thesis by (simp add: max_value.simps min_value.simps maxmin.simps minmax.simps)
  next
    case False
    with less.prems have ne: "actions b \<noteq> {}" by (simp add: terminal_iff)
    from it have set_it: "set (it (actions b)) = actions b" by (simp add: valid_iter_def)
    have kids: "\<forall>a\<in>set (it (actions b)).
        (\<exists>b' m'. result b a = Inr b' \<and> min_value it b' = Inr (max_child b a, m')) \<and>
        (\<exists>b' m'. result b a = Inr b' \<and> max_value it b' = Inr (min_child b a, m'))"
    proof
      fix a assume "a \<in> set (it (actions b))"
      with set_it less.prems obtain b' where r: "result b a = Inr b'" and
        "wf_board b'" "empties b' < empties b"
        by (auto elim: legal_result)
      with less.hyps r show "(\<exists>b' m'. result b a = Inr b' \<and> min_value it b' = Inr (max_child b a, m')) \<and>
        (\<exists>b' m'. result b a = Inr b' \<and> max_value it b' = Inr (min_child b a, m'))"
        by (simp add: max_child_def min_child_def)
    qed
    have range: "\<forall>a\<in>actions b. max_child b a \<in> {-1..1} \<and> min_child b a \<in> {-1..1}"
    proof
      fix a assume "a \<in> actions b"
      with less.prems obtain b' where "result b a = Inr b'" "wf_board b'"
        by (rule legal_result)
      then show "max_child b a \<in> {-1..1} \<and> min_child b a \<in> {-1..1}"
        using maxmin_minmax_range by (simp add: max_child_def min_child_def)
    qed
    have "Max (insert (-5) (max_child b ` actions b)) = Max (max_child b ` actions b)"
      using ne range by (intro Max_insert_below [where lo = "-1"]) auto
    then have mx: "Max (insert (-5) (max_child b ` actions b)) = maxmin b"
      by (simp only: maxmin_unfold [OF False])
    have "Min (insert 5 (min_child b ` actions b)) = Min (min_child b ` actions b)"
      using ne range by (intro Min_insert_above [where hi = 1]) auto
    then have mn: "Min (insert 5 (min_child b ` actions b)) = minmax b"
      by (simp only: minmax_unfold [OF False])
    have lo: "-5 < maxmin b" and hi: "minmax b < 5"
      using maxmin_minmax_range [OF less.prems] by auto
    from kids have k1: "\<forall>a\<in>set (it (actions b)).
        \<exists>b' m'. result b a = Inr b' \<and> min_value it b' = Inr (max_child b a, m')"
      by blast
    from kids have k2: "\<forall>a\<in>set (it (actions b)).
        \<exists>b' m'. result b a = Inr b' \<and> max_value it b' = Inr (min_child b a, m')"
      by blast
    have l1: "max_loop it b (it (actions b)) (-5) Unset =
        Inr (maxmin b, first_best it (max_child b) (maxmin b) b)"
      using max_loop_eq [OF k1, of "-5" Unset] mx set_it lo by (simp add: first_best_def)
    have l2: "min_loop it b (it (actions b)) 5 Unset =
        Inr (minmax b, first_best it (min_child b) (minmax b) b)"
      using min_loop_eq [OF k2, of 5 Unset] mn set_it hi by (simp add: first_best_def)
    from False show ?thesis
      by (simp add: max_value.simps min_value.simps l1 l2)
  qed
qed

section \<open>The game value on boards of legal play\<close>

lemma game_value_unfold:
  "\<not> terminal b \<Longrightarrow>
   game_value b = (if player b = X then Max else Min) (action_value b ` actions b)"
  by (simp add: game_value.simps action_value_def)

lemma action_value_child:
  assumes "turn_inv b" "a \<in> actions b" "result b a = Inr b'"
  shows "turn_inv b' \<and> player b' \<noteq> player b \<and> action_value b a = game_value b'"
  using assms turn_inv_result result_player_alternates by (simp add: action_value_def)

lemma game_value_eq:
  "turn_inv b \<Longrightarrow> game_value b = (if player b = X then maxmin b else minmax b)"
proof (induction "empties b" arbitrary: b rule: less_induct)
  case less
  show ?case
  proof (cases "terminal b")
    case True
    then show ?thesis by (simp add: game_value.simps maxmin.simps minmax.simps)
  next
    case False
    from less.prems have wf: "wf_board b" by (simp add: turn_inv_def)
    have kids: "action_value b a = (if player b = X then max_child b a else min_child b a)"
      if a: "a \<in> actions b" for a
    proof -
      from wf a obtain b' where r: "result b a = Inr b'" and "empties b' < empties b"
        by (rule legal_result)
      with less.hyps less.prems a action_value_child [OF less.prems a r] show ?thesis
        by (auto simp: max_child_def min_child_def r)
    qed
    then have "action_value b ` actions b =
        (if player b = X then max_child b else min_child b) ` actions b"
      by (auto simp: image_iff)
    with False show ?thesis
      by (simp add: game_value_unfold maxmin_unfold minmax_unfold)
  qed
qed

lemma game_value_attained:
  assumes "wf_board b" "\<not> terminal b"
  shows "\<exists>a\<in>actions b. action_value b a = game_value b"
proof -
  from assms have ne: "actions b \<noteq> {}" by (simp add: terminal_iff)
  have "game_value b \<in> action_value b ` actions b"
    using assms(2) ne by (simp add: game_value_unfold Max_in Min_in)
  then show ?thesis by auto
qed

lemma first_best_cong:
  assumes "valid_iter it" "\<forall>a\<in>actions b. f a = g a"
  shows "first_best it f v b = first_best it g v b"
proof -
  from assms(1) have "set (it (actions b)) = actions b" by (simp add: valid_iter_def)
  with assms(2) have "find (\<lambda>a. f a = v) (it (actions b)) = find (\<lambda>a. g a = v) (it (actions b))"
    by (intro find_cong) auto
  then show ?thesis by (simp add: first_best_def)
qed

lemma first_best_found:
  assumes "valid_iter it" "\<exists>a\<in>actions b. f a = v"
  shows "\<exists>a. first_best it f v b = Move a \<and> find (\<lambda>x. f x = v) (it (actions b)) = Some a"
proof -
  from assms(1) have "set (it (actions b)) = actions b" by (simp add: valid_iter_def)
  with assms(2) have "find (\<lambda>x. f x = v) (it (actions b)) \<noteq> None"
    by (auto simp: find_None_iff)
  then show ?thesis by (auto simp: first_best_def)
qed

lemma minimax_eq:
  assumes it: "valid_iter it" and inv: "turn_inv b"
  shows "minimax it b =
    (if terminal b then Inr None
     else Inr (Some (first_best it (action_value b) (game_value b) b)))"
proof (cases "terminal b")
  case True
  then show ?thesis by (simp add: minimax_def)
next
  case False
  from inv have wf: "wf_board b" by (simp add: turn_inv_def)
  have kids: "\<forall>a\<in>actions b. action_value b a = (if player b = X then max_child b a else min_child b a)"
  proof
    fix a assume a: "a \<in> actions b"
    with wf obtain b' where r: "result b a = Inr b'" by (rule legal_result)
    from action_value_child [OF inv a r] game_value_eq show
      "action_value b a = (if player b = X then max_child b a else min_child b a)"
      by (auto simp: max_child_def min_child_def r)
  qed
  show ?thesis
  proof (cases "player b = X")
    case True
    with kids have "first_best it (action_value b) (game_value b) b =
        first_best it (max_child b) (maxmin b) b"
      using game_value_eq [OF inv] first_best_cong [OF it] by simp
    with True False search_eq [OF it wf] show ?thesis by (simp add: minimax_def)
  next
    case False': False
    with kids have "first_best it (action_value b) (game_value b) b =
        first_best it (min_child b) (minmax b) b"
      using game_value_eq [OF inv] first_best_cong [OF it] by simp
    with False' False search_eq [OF it wf] show ?thesis by (simp add: minimax_def)
  qed
qed

lemma valid_iter_sorted: "valid_iter sorted_list_of_set"
  by (simp add: valid_iter_def)

lemma minimax_move:
  assumes it: "valid_iter it" and inv: "turn_inv b" and nt: "\<not> terminal b"
  shows "\<exists>a. minimax it b = Inr (Some (Move a)) \<and>
             find (\<lambda>x. action_value b x = game_value b) (it (actions b)) = Some a"
proof -
  from inv have wf: "wf_board b" by (simp add: turn_inv_def)
  from first_best_found [OF it game_value_attained [OF wf nt]] obtain a where
    "first_best it (action_value b) (game_value b) b = Move a"
    "find (\<lambda>x. action_value b x = game_value b) (it (actions b)) = Some a"
    by blast
  with minimax_eq [OF it inv] nt show ?thesis by simp
qed

lemma find_in_iter:
  assumes "valid_iter it" "find P (it (actions b)) = Some a"
  shows "a \<in> actions b \<and> P a"
proof -
  from assms(1) have "set (it (actions b)) = actions b" by (simp add: valid_iter_def)
  with assms(2) show ?thesis by (auto simp: find_Some_iff dest: nth_mem)
qed

lemma search_result_move:
  assumes it: "valid_iter it" and wf: "wf_board b" and nt: "\<not> terminal b"
  shows "\<exists>a. max_value it b = Inr (maxmin b, Move a) \<and> a \<in> actions b" (is ?max)
    and "\<exists>a. min_value it b = Inr (minmax b, Move a) \<and> a \<in> actions b" (is ?min)
proof -
  from wf nt have ne: "actions b \<noteq> {}" by (simp add: terminal_iff)
  have "maxmin b \<in> max_child b ` actions b" "minmax b \<in> min_child b ` actions b"
    using ne nt by (simp_all add: maxmin_unfold minmax_unfold)
  then have "\<exists>a\<in>actions b. max_child b a = maxmin b" "\<exists>a\<in>actions b. min_child b a = minmax b"
    by auto
  from first_best_found [OF it this(1)] first_best_found [OF it this(2)]
    search_eq [OF it wf] nt find_in_iter [OF it]
  show ?max ?min by fastforce+
qed

section \<open>Properties of the search\<close>

text \<open>
  C1: on every non-terminal board of legal play and for every iteration order of the action
  set, \<^verbatim>\<open>minimax\<close> returns a legal action whose value is the game value of the board:
  an optimal move for the player to move.
\<close>

theorem minimax_optimal:
  assumes "valid_iter it" "reachable b" "\<not> terminal b"
  shows "\<exists>a. minimax it b = Inr (Some (Move a)) \<and> a \<in> actions b \<and>
             action_value b a = game_value b"
  using minimax_move [OF assms(1) reachable_turn_inv [OF assms(2)] assms(3)]
    find_in_iter [OF assms(1)] by blast

theorem minimax_optimal_witness:
  "valid_iter sorted_list_of_set \<and> reachable initial_state \<and> \<not> terminal initial_state \<and>
   (\<exists>a. minimax sorted_list_of_set initial_state = Inr (Some (Move a)) \<and>
        a \<in> actions initial_state \<and> action_value initial_state a = game_value initial_state)"
proof -
  have nt: "\<not> terminal initial_state" by (simp add: board_eval)
  show ?thesis
    using minimax_optimal [OF valid_iter_sorted reachable.initial nt]
      valid_iter_sorted reachable.initial nt by blast
qed

text \<open>
  C2: for every iteration order, \<^verbatim>\<open>max_value\<close> and \<^verbatim>\<open>min_value\<close> terminate without
  raising on every well-formed board and compute the minimax values of its game tree.
\<close>

theorem search_refines_game_tree:
  assumes "valid_iter it" "wf_board b"
  shows "(\<exists>m. max_value it b = Inr (maxmin b, m)) \<and> (\<exists>m. min_value it b = Inr (minmax b, m))"
  using search_eq [OF assms] by blast

theorem search_refines_game_tree_witness:
  "valid_iter sorted_list_of_set \<and> wf_board initial_state \<and>
   (\<exists>m. max_value sorted_list_of_set initial_state = Inr (maxmin initial_state, m)) \<and>
   (\<exists>m. min_value sorted_list_of_set initial_state = Inr (minmax initial_state, m))"
  using search_refines_game_tree [OF valid_iter_sorted wf_initial_state]
    valid_iter_sorted wf_initial_state by blast

text \<open>
  C3: the tie-break. The move returned is the first action, in the iteration order of the
  action set, whose value equals the game value: later actions of equal value never
  replace it, since the loops update only on strict improvement.
\<close>

theorem minimax_first_best:
  assumes "valid_iter it" "reachable b" "minimax it b = Inr (Some (Move a))"
  shows "find (\<lambda>x. action_value b x = game_value b) (it (actions b)) = Some a"
proof (cases "terminal b")
  case True
  with assms(3) show ?thesis by (simp add: minimax_def)
next
  case False
  with minimax_move [OF assms(1) reachable_turn_inv [OF assms(2)]] assms(3) show ?thesis
    by auto
qed

theorem minimax_first_best_witness:
  "valid_iter sorted_list_of_set \<and> reachable spec_board_1 \<and>
   minimax sorted_list_of_set spec_board_1 = Inr (Some (Move (0, 2))) \<and>
   find (\<lambda>x. action_value spec_board_1 x = game_value spec_board_1)
     (sorted_list_of_set (actions spec_board_1)) = Some (0, 2)"
proof -
  have r1: "reachable [[Some X, EMPTY, EMPTY], [EMPTY, EMPTY, EMPTY], [EMPTY, EMPTY, EMPTY]]"
    by (rule reachable.move [OF reachable.initial, of "(0, 0)"]) (simp_all add: board_eval)
  have r2: "reachable [[Some X, EMPTY, EMPTY], [Some O', EMPTY, EMPTY], [EMPTY, EMPTY, EMPTY]]"
    by (rule reachable.move [OF r1, of "(1, 0)"]) (simp_all add: board_eval)
  have r3: "reachable [[Some X, Some X, EMPTY], [Some O', EMPTY, EMPTY], [EMPTY, EMPTY, EMPTY]]"
    by (rule reachable.move [OF r2, of "(0, 1)"]) (simp_all add: board_eval)
  have r4: "reachable spec_board_1"
    by (rule reachable.move [OF r3, of "(1, 1)"]) (simp_all add: board_eval)
  have m: "minimax sorted_list_of_set spec_board_1 = Inr (Some (Move (0, 2)))"
    by code_simp
  show ?thesis
    using minimax_first_best [OF valid_iter_sorted r4 m] valid_iter_sorted r4 m by blast
qed

text \<open>
  C4: on every non-terminal well-formed board, legal or not, \<^verbatim>\<open>minimax\<close> returns a
  real action of the board: the initial
  \<^verbatim>\<open>optimal_move = ()\<close> never escapes, because every utility beats the initial bounds
  \<^verbatim>\<open>-5\<close> and \<^verbatim>\<open>5\<close>.
\<close>

theorem minimax_returns_move:
  assumes "valid_iter it" "wf_board b" "\<not> terminal b"
  shows "\<exists>a. minimax it b = Inr (Some (Move a)) \<and> a \<in> actions b"
  using search_result_move [OF assms] assms(3) by (auto simp: minimax_def)

theorem minimax_returns_move_witness:
  "valid_iter sorted_list_of_set \<and> wf_board [[Some O', Some O', EMPTY], [EMPTY, EMPTY, EMPTY], [EMPTY, EMPTY, EMPTY]] \<and>
   \<not> terminal [[Some O', Some O', EMPTY], [EMPTY, EMPTY, EMPTY], [EMPTY, EMPTY, EMPTY]] \<and>
   (\<exists>a. minimax sorted_list_of_set [[Some O', Some O', EMPTY], [EMPTY, EMPTY, EMPTY], [EMPTY, EMPTY, EMPTY]] =
          Inr (Some (Move a)) \<and>
        a \<in> actions [[Some O', Some O', EMPTY], [EMPTY, EMPTY, EMPTY], [EMPTY, EMPTY, EMPTY]])"
proof -
  let ?b = "[[Some O', Some O', EMPTY], [EMPTY, EMPTY, EMPTY], [EMPTY, EMPTY, EMPTY]]"
  have wf: "wf_board ?b" by (simp add: wf_board_def)
  have nt: "\<not> terminal ?b" by (simp add: board_eval)
  show ?thesis using minimax_returns_move [OF valid_iter_sorted wf nt] valid_iter_sorted wf nt by blast
qed

text \<open>
  C5: the spec's first scenario. On \<open>[[X, X, _], [O, O, _], [_, _, _]]\<close>, with \<^verbatim>\<open>X\<close>
  to move, \<^verbatim>\<open>minimax\<close> returns the immediate win \<open>(0, 2)\<close> whatever the iteration order,
  and the resulting board is won by \<^verbatim>\<open>X\<close> with utility 1.
\<close>

theorem spec_scenario_win:
  assumes "valid_iter it"
  shows "minimax it spec_board_1 = Inr (Some (Move (0, 2))) \<and>
         (\<exists>b'. result spec_board_1 (0, 2) = Inr b' \<and> winner b' = Some X \<and> utility b' = 1)"
proof -
  have inv: "turn_inv spec_board_1" by (simp add: turn_inv_def wf_board_def count_mark_def)
  have nt: "\<not> terminal spec_board_1" by (simp add: board_eval)
  from minimax_move [OF assms inv nt] obtain a where
    m: "minimax it spec_board_1 = Inr (Some (Move a))" and
    f: "find (\<lambda>x. action_value spec_board_1 x = game_value spec_board_1) (it (actions spec_board_1)) = Some a"
    by blast
  from find_in_iter [OF assms f] have a: "a \<in> actions spec_board_1"
    and va: "action_value spec_board_1 a = game_value spec_board_1" by simp_all
  have acts: "actions spec_board_1 = {(0, 2), (1, 2), (2, 0), (2, 1), (2, 2)}"
    by (simp add: board_eval insert_commute)
  have gv: "game_value spec_board_1 = 1" by code_simp
  have "action_value spec_board_1 (1, 2) = 0" "action_value spec_board_1 (2, 0) = -1"
    "action_value spec_board_1 (2, 1) = -1" "action_value spec_board_1 (2, 2) = -1"
    by code_simp+
  moreover from a acts have "a = (0, 2) \<or> a = (1, 2) \<or> a = (2, 0) \<or> a = (2, 1) \<or> a = (2, 2)"
    by simp
  ultimately have "a = (0, 2)" using va gv by auto
  moreover have "result spec_board_1 (0, 2) =
      Inr [[Some X, Some X, Some X], [Some O', Some O', EMPTY], [EMPTY, EMPTY, EMPTY]]"
    by (simp add: board_eval)
  moreover have "winner [[Some X, Some X, Some X], [Some O', Some O', EMPTY], [EMPTY, EMPTY, EMPTY]] = Some X"
    "utility [[Some X, Some X, Some X], [Some O', Some O', EMPTY], [EMPTY, EMPTY, EMPTY]] = 1"
    by (simp_all add: board_eval)
  ultimately show ?thesis using m by simp
qed

theorem spec_scenario_win_witness:
  "valid_iter (rev \<circ> sorted_list_of_set) \<and>
   minimax (rev \<circ> sorted_list_of_set) spec_board_1 = Inr (Some (Move (0, 2)))"
proof -
  have v: "valid_iter (rev \<circ> sorted_list_of_set)" by (simp add: valid_iter_def)
  show ?thesis using spec_scenario_win [OF v] v by simp
qed

text \<open>
  C6: the spec's second scenario. On \<open>[[X, O, X], [X, O, O], [_, _, _]]\<close> it is
  \<^verbatim>\<open>X\<close>'s turn (three marks each), and \<open>(2, 0)\<close> completes \<^verbatim>\<open>X\<close>'s first column:
  the game value is 1 and \<^verbatim>\<open>minimax\<close> returns \<open>(2, 0)\<close> whatever the iteration order.
\<close>

theorem spec_scenario_column:
  assumes "valid_iter it"
  shows "player spec_board_2 = X \<and> game_value spec_board_2 = 1 \<and>
         minimax it spec_board_2 = Inr (Some (Move (2, 0)))"
proof -
  have inv: "turn_inv spec_board_2" by (simp add: turn_inv_def wf_board_def count_mark_def)
  have nt: "\<not> terminal spec_board_2" by (simp add: board_eval)
  from minimax_move [OF assms inv nt] obtain a where
    m: "minimax it spec_board_2 = Inr (Some (Move a))" and
    f: "find (\<lambda>x. action_value spec_board_2 x = game_value spec_board_2) (it (actions spec_board_2)) = Some a"
    by blast
  from find_in_iter [OF assms f] have a: "a \<in> actions spec_board_2"
    and va: "action_value spec_board_2 a = game_value spec_board_2" by simp_all
  have acts: "actions spec_board_2 = {(2, 0), (2, 1), (2, 2)}"
    by (simp add: board_eval insert_commute)
  have gv: "game_value spec_board_2 = 1" by code_simp
  have "action_value spec_board_2 (2, 1) = 0" "action_value spec_board_2 (2, 2) = -1"
    by code_simp+
  moreover from a acts have "a = (2, 0) \<or> a = (2, 1) \<or> a = (2, 2)"
    by simp
  ultimately have "a = (2, 0)" using va gv by auto
  moreover have "player spec_board_2 = X" by (simp add: board_eval)
  ultimately show ?thesis using m gv by simp
qed

theorem spec_scenario_column_witness:
  "valid_iter sorted_list_of_set \<and> minimax sorted_list_of_set spec_board_2 = Inr (Some (Move (2, 0)))"
  using spec_scenario_column [OF valid_iter_sorted] valid_iter_sorted by simp

end
