(* ===== verification/Depth.thy ===== *)
theory Depth
  imports Search
begin

text \<open>
  The recursion depth of the search. \<^verbatim>\<open>max_value\<close> and \<^verbatim>\<open>min_value\<close> call each
  other once per ply, so each nesting level is a Python stack frame of the interpreter;
  CPython raises \<^verbatim>\<open>RecursionError\<close> beyond its recursion limit. \<open>max_value_d\<close>,
  \<open>min_value_d\<close>, \<open>max_loop_d\<close> and \<open>min_loop_d\<close> are the search of \<open>Search\<close>
  statement by statement, with a depth budget \<open>n\<close> that each call of \<^verbatim>\<open>max_value\<close> or
  \<^verbatim>\<open>min_value\<close> consumes: \<open>None\<close> is running out of it. The theorems show that a
  budget one above the number of free cells always gives the search's own result, so the
  search terminates on every board, and on a 3x3 board within ten nested calls.
\<close>

function max_value_d :: "nat \<Rightarrow> set_iter \<Rightarrow> board \<Rightarrow> (py_error + int \<times> optimal_move) option"
  and min_value_d :: "nat \<Rightarrow> set_iter \<Rightarrow> board \<Rightarrow> (py_error + int \<times> optimal_move) option"
  and max_loop_d :: "nat \<Rightarrow> set_iter \<Rightarrow> board \<Rightarrow> action list \<Rightarrow> int \<Rightarrow> optimal_move \<Rightarrow>
      (py_error + int \<times> optimal_move) option"
  and min_loop_d :: "nat \<Rightarrow> set_iter \<Rightarrow> board \<Rightarrow> action list \<Rightarrow> int \<Rightarrow> optimal_move \<Rightarrow>
      (py_error + int \<times> optimal_move) option"
where
  "max_value_d 0 it b = None"
| "max_value_d (Suc n) it b =
     (let optimal_move = Unset in
      if terminal b then Some (Inr (utility b, optimal_move))
      else max_loop_d n it b (it (actions b)) (-5) optimal_move)"
| "max_loop_d n it b [] v optimal_move = Some (Inr (v, optimal_move))"
| "max_loop_d n it b (action # acts) v optimal_move =
     (case result b action of
        Inl e \<Rightarrow> Some (Inl e)
      | Inr b' \<Rightarrow>
          (case min_value_d n it b' of
             None \<Rightarrow> None
           | Some (Inl e) \<Rightarrow> Some (Inl e)
           | Some (Inr r) \<Rightarrow>
               (let minval = fst r in
                if minval > v then max_loop_d n it b acts minval (Move action)
                else max_loop_d n it b acts v optimal_move)))"
| "min_value_d 0 it b = None"
| "min_value_d (Suc n) it b =
     (let optimal_move = Unset in
      if terminal b then Some (Inr (utility b, optimal_move))
      else min_loop_d n it b (it (actions b)) 5 optimal_move)"
| "min_loop_d n it b [] v optimal_move = Some (Inr (v, optimal_move))"
| "min_loop_d n it b (action # acts) v optimal_move =
     (case result b action of
        Inl e \<Rightarrow> Some (Inl e)
      | Inr b' \<Rightarrow>
          (case max_value_d n it b' of
             None \<Rightarrow> None
           | Some (Inl e) \<Rightarrow> Some (Inl e)
           | Some (Inr r) \<Rightarrow>
               (let maxval = fst r in
                if maxval < v then min_loop_d n it b acts maxval (Move action)
                else min_loop_d n it b acts v optimal_move)))"
  by pat_completeness auto
termination
  by (relation "measures
    [\<lambda>x. case x of Inl (Inl (n, it, b)) \<Rightarrow> n | Inl (Inr (n, it, b)) \<Rightarrow> n
                | Inr (Inl (n, it, b, as, v, m)) \<Rightarrow> n | Inr (Inr (n, it, b, as, v, m)) \<Rightarrow> n,
     \<lambda>x. case x of Inl _ \<Rightarrow> 0 | Inr _ \<Rightarrow> 1,
     \<lambda>x. case x of Inl _ \<Rightarrow> 0 | Inr (Inl (n, it, b, as, v, m)) \<Rightarrow> length as
                | Inr (Inr (n, it, b, as, v, m)) \<Rightarrow> length as]") auto

section \<open>Enough depth gives the search's result\<close>

lemma max_loop_d_eq:
  assumes val: "\<And>b'. empties b' < n \<Longrightarrow> min_value_d n it b' = Some (min_value it b')"
    and le: "empties b \<le> n"
  shows "max_loop_d n it b as v m = Some (max_loop it b as v m)"
proof (induction as arbitrary: v m)
  case (Cons a as)
  show ?case
  proof (cases "result b a")
    case (Inr b')
    with le have "empties b' < n" by (auto dest: result_empties)
    with Inr Cons.IH show ?thesis by (simp add: val Let_def split: sum.split)
  qed simp
qed simp

lemma min_loop_d_eq:
  assumes val: "\<And>b'. empties b' < n \<Longrightarrow> max_value_d n it b' = Some (max_value it b')"
    and le: "empties b \<le> n"
  shows "min_loop_d n it b as v m = Some (min_loop it b as v m)"
proof (induction as arbitrary: v m)
  case (Cons a as)
  show ?case
  proof (cases "result b a")
    case (Inr b')
    with le have "empties b' < n" by (auto dest: result_empties)
    with Inr Cons.IH show ?thesis by (simp add: val Let_def split: sum.split)
  qed simp
qed simp

lemma value_d_eq:
  "empties b < n \<Longrightarrow>
   max_value_d n it b = Some (max_value it b) \<and> min_value_d n it b = Some (min_value it b)"
proof (induction n arbitrary: b)
  case (Suc n)
  then have le: "empties b \<le> n" by simp
  have "max_loop_d n it b as v m = Some (max_loop it b as v m)" for as v m
    using Suc.IH le by (intro max_loop_d_eq) simp_all
  moreover have "min_loop_d n it b as v m = Some (min_loop it b as v m)" for as v m
    using Suc.IH le by (intro min_loop_d_eq) simp_all
  ultimately show ?case by (simp add: max_value.simps min_value.simps Let_def)
qed simp

section \<open>Termination within the recursion limit\<close>

text \<open>
  On every board, well-formed or not, the search returns (a value or an exception)
  within one more nested call of \<^verbatim>\<open>max_value\<close>/\<^verbatim>\<open>min_value\<close> than there are
  free cells, and the depth-counted search gives exactly the search's result there.
\<close>

theorem search_depth:
  "max_value_d (Suc (empties b)) it b = Some (max_value it b) \<and>
   min_value_d (Suc (empties b)) it b = Some (min_value it b)"
  by (rule value_d_eq) simp

text \<open>
  C37: on a well-formed 3x3 board the search never nests more than ten calls of
  \<^verbatim>\<open>max_value\<close>/\<^verbatim>\<open>min_value\<close>, far below CPython's default recursion limit of 1000,
  so it never raises \<^verbatim>\<open>RecursionError\<close>.
\<close>

theorem search_depth_wf:
  assumes "wf_board b"
  shows "max_value_d 10 it b = Some (max_value it b) \<and> min_value_d 10 it b = Some (min_value it b)"
proof (rule value_d_eq)
  show "empties b < 10" using count_mark_sum [OF assms] by simp
qed

theorem search_depth_wf_witness:
  "wf_board initial_state \<and>
   max_value_d 10 sorted_list_of_set initial_state = Some (max_value sorted_list_of_set initial_state) \<and>
   min_value_d 10 sorted_list_of_set initial_state = Some (min_value sorted_list_of_set initial_state)"
  by (rule conjI [OF wf_initial_state search_depth_wf [OF wf_initial_state]])

end
