(* ===== verification/Evaluator.thy ===== *)
theory Evaluator
  imports Search
begin

text \<open>
  A second evaluator of the game tree, used to compute facts about the whole game that are
  out of reach of evaluating \<open>game_value\<close> itself in the kernel. A board is flattened
  row-major to its nine cells (\<open>concat\<close>); \<open>fwinner\<close>, \<open>fplayer\<close> and the update of
  one cell are the rules engine on the flat board. \<open>fbound p k c\<close> decides whether the
  player \<open>p\<close> can force the game value to \<open>k\<close> or better for \<open>p\<close> (at least \<open>k\<close> for
  \<^verbatim>\<open>X\<close>, at most \<open>k\<close> for \<^verbatim>\<open>O\<close>): it searches \<open>p\<close>'s moves until one works and
  checks every reply of the opponent, trying immediate wins and blocks first
  (\<open>fmoves\<close>). Soundness (\<open>fbound_sound\<close>) makes every evaluation a theorem about
  \<open>game_value\<close>, whatever the move ordering.
\<close>

type_synonym fboard = "cell list"

definition flines :: "nat list list" where
  "flines = [[0, 1, 2], [3, 4, 5], [6, 7, 8], [0, 3, 6], [1, 4, 7], [2, 5, 8], [0, 4, 8], [2, 4, 6]]"

definition fwins :: "fboard \<Rightarrow> mark \<Rightarrow> bool" where
  "fwins c p \<longleftrightarrow> list_ex (\<lambda>l. list_all (\<lambda>k. c ! k = Some p) l) flines"

definition fwinner :: "fboard \<Rightarrow> mark option" where
  "fwinner c = (if fwins c X then Some X else if fwins c O' then Some O' else None)"

definition fplayer :: "fboard \<Rightarrow> mark" where
  "fplayer c = (if count_list c (Some O') < count_list c (Some X) then O' else X)"

definition goal :: "mark \<Rightarrow> int \<Rightarrow> int \<Rightarrow> bool" where
  "goal p k u \<longleftrightarrow> (if p = X then k \<le> u else u \<le> k)"

definition fvalue :: "mark option \<Rightarrow> int" where
  "fvalue w = (if w = Some X then 1 else if w = Some O' then -1 else 0)"

definition forder :: "nat list" where
  "forder = [4, 0, 2, 6, 8, 1, 3, 5, 7]"

definition fmoves :: "fboard \<Rightarrow> nat list" where
  "fmoves c =
     (let free = filter (\<lambda>k. c ! k = EMPTY) forder; me = fplayer c;
          op = (if me = X then O' else X);
          w = filter (\<lambda>k. fwins (c[k := Some me]) me) free;
          bl = filter (\<lambda>k. k \<notin> set w \<and> fwins (c[k := Some op]) op) free
      in w @ bl @ filter (\<lambda>k. k \<notin> set w \<and> k \<notin> set bl) free)"

function fbound :: "mark \<Rightarrow> int \<Rightarrow> fboard \<Rightarrow> bool"
  and fbound_ex :: "mark \<Rightarrow> int \<Rightarrow> fboard \<Rightarrow> nat list \<Rightarrow> bool"
  and fbound_all :: "mark \<Rightarrow> int \<Rightarrow> fboard \<Rightarrow> nat list \<Rightarrow> bool"
where
  "fbound p k c =
     (let w = fwinner c in
      if w \<noteq> None \<or> EMPTY \<notin> set c then goal p k (fvalue w)
      else if fplayer c = p then fbound_ex p k c (fmoves c) else fbound_all p k c (fmoves c))"
| "fbound_ex p k c [] = False"
| "fbound_ex p k c (m # ms) =
     (if m < length c \<and> c ! m = EMPTY then
        (if fbound p k (c[m := Some (fplayer c)]) then True else fbound_ex p k c ms)
      else fbound_ex p k c ms)"
| "fbound_all p k c [] = True"
| "fbound_all p k c (m # ms) =
     (if m < length c \<and> c ! m = EMPTY then
        (if fbound p k (c[m := Some (fplayer c)]) then fbound_all p k c ms else False)
      else False)"
  by pat_completeness auto
termination
  by (relation "measures
    [\<lambda>x. case x of Inl (p, k, c) \<Rightarrow> count_list c EMPTY
                | Inr (Inl (p, k, c, ms)) \<Rightarrow> count_list c EMPTY
                | Inr (Inr (p, k, c, ms)) \<Rightarrow> count_list c EMPTY,
     \<lambda>x. case x of Inl _ \<Rightarrow> 1 | Inr _ \<Rightarrow> 0,
     \<lambda>x. case x of Inl _ \<Rightarrow> 0 | Inr (Inl (p, k, c, ms)) \<Rightarrow> length ms
                | Inr (Inr (p, k, c, ms)) \<Rightarrow> length ms]")
    (auto intro: count_list_update_less)

text \<open>The action \<open>(i, j)\<close> of the flat index \<open>3 i + j\<close>.\<close>

definition act :: "nat \<Rightarrow> action" where
  "act m = (int (m div 3), int (m mod 3))"

declare fbound.simps(1) [simp del]

section \<open>The flat board refines the board\<close>

lemma less9_cases:
  fixes m :: nat
  assumes "m < 9"
  shows "m = 0 \<or> m = 1 \<or> m = 2 \<or> m = 3 \<or> m = 4 \<or> m = 5 \<or> m = 6 \<or> m = 7 \<or> m = 8"
  using assms by presburger

lemma flat_cell:
  assumes "wf_board b" "m < 9"
  shows "concat b ! m = get_cell b (int (m div 3)) (int (m mod 3))"
  using assms(1)
proof (rule wf_board_cases)
  fix a1 a2 a3 b1 b2 b3 c1 c2 c3
  assume "b = [[a1, a2, a3], [b1, b2, b3], [c1, c2, c3]]"
  with less9_cases [OF assms(2)] show ?thesis by (auto simp: get_cell_def)
qed

lemma coords_act: "set coords = act ` {..<9}"
  by (simp add: coords_def range3_def act_def lessThan_nat_numeral lessThan_Suc insert_commute)

lemma actions_flat:
  assumes "wf_board b"
  shows "a \<in> actions b \<longleftrightarrow> (\<exists>m<9. a = act m \<and> concat b ! m = EMPTY)"
proof -
  have "a \<in> actions b \<longleftrightarrow> a \<in> set coords \<and> get_cell b (fst a) (snd a) = EMPTY"
    by (cases a) (simp add: actions_eq)
  also have "\<dots> \<longleftrightarrow> (\<exists>m<9. a = act m \<and> get_cell b (fst a) (snd a) = EMPTY)"
    by (auto simp: coords_act)
  also have "\<dots> \<longleftrightarrow> (\<exists>m<9. a = act m \<and> concat b ! m = EMPTY)"
    using flat_cell [OF assms] by (auto simp: act_def)
  finally show ?thesis .
qed

lemma wins_flat: "wf_board b \<Longrightarrow> player_wins b p \<longleftrightarrow> fwins (concat b) p"
  by (erule wf_board_cases)
    (simp add: player_wins_lines wf_board_def winning_lines_def owns_line_def get_cell_def fwins_def flines_def)

lemma winner_flat: "wf_board b \<Longrightarrow> winner b = fwinner (concat b)"
  by (simp add: winner_eq wins_flat fwinner_def)

lemma player_flat: "wf_board b \<Longrightarrow> player b = fplayer (concat b)"
  by (simp add: player_eq fplayer_def count_mark_def)

lemma terminal_flat:
  "wf_board b \<Longrightarrow> terminal b \<longleftrightarrow> fwinner (concat b) \<noteq> None \<or> EMPTY \<notin> set (concat b)"
  by (auto simp: terminal_def winner_flat list_ex_iff)

lemma utility_flat: "wf_board b \<Longrightarrow> utility b = fvalue (fwinner (concat b))"
  by (simp add: utility_def fvalue_def winner_flat)

lemma concat_result_legal:
  assumes "wf_board b" "m < 9"
  shows "concat (b[m div 3 := (b ! (m div 3))[m mod 3 := v]]) = (concat b)[m := v]"
  using assms(1)
proof (rule wf_board_cases)
  fix a1 a2 a3 b1 b2 b3 c1 c2 c3
  assume "b = [[a1, a2, a3], [b1, b2, b3], [c1, c2, c3]]"
  with less9_cases [OF assms(2)] show ?thesis by auto
qed

lemma result_flat:
  assumes "wf_board b" "m < 9" "concat b ! m = EMPTY"
  obtains b' where "result b (act m) = Inr b'" "wf_board b'" "empties b' < empties b"
    "concat b' = (concat b)[m := Some (player b)]"
proof -
  from assms have a: "act m \<in> actions b" by (auto simp: actions_flat)
  obtain b' where r: "result b (act m) = Inr b'" "wf_board b'" "empties b' < empties b"
    by (rule legal_result [OF assms(1) a])
  from result_legal [OF assms(1) a [unfolded act_def]] r(1)
  have "b' = b[m div 3 := (b ! (m div 3))[m mod 3 := Some (player b)]]"
    by (simp add: act_def)
  with assms(1,2) have "concat b' = (concat b)[m := Some (player b)]"
    by (simp add: concat_result_legal)
  with r show ?thesis by (rule that)
qed

section \<open>Soundness of the bound search\<close>

lemma mem_forder: "m \<in> set forder \<longleftrightarrow> m < 9"
proof
  assume "m < 9"
  with less9_cases [OF this] show "m \<in> set forder" by (auto simp: forder_def)
qed (auto simp: forder_def)

lemma set_fmoves: "set (fmoves c) = {m. m < 9 \<and> c ! m = EMPTY}"
  by (auto simp: fmoves_def Let_def mem_forder)

lemma fbound_ex_iff:
  "fbound_ex p k c ms \<longleftrightarrow>
   (\<exists>m\<in>set ms. m < length c \<and> c ! m = EMPTY \<and> fbound p k (c[m := Some (fplayer c)]))"
  by (induction ms) auto

lemma fbound_all_iff:
  "fbound_all p k c ms \<longleftrightarrow>
   (\<forall>m\<in>set ms. m < length c \<and> c ! m = EMPTY \<and> fbound p k (c[m := Some (fplayer c)]))"
  by (induction ms) auto

lemma fbound_unfold:
  "\<not> (fwinner c \<noteq> None \<or> EMPTY \<notin> set c) \<Longrightarrow>
   fbound p k c = (if fplayer c = p then fbound_ex p k c (fmoves c) else fbound_all p k c (fmoves c))"
  by (simp add: fbound.simps(1) Let_def)

lemma goal_Max:
  assumes "finite A" "a \<in> A" "goal X k (f a)"
  shows "goal X k (Max (f ` A))"
proof -
  from assms(1,2) have "f a \<le> Max (f ` A)" by (simp add: Max_ge)
  with assms(3) show ?thesis by (simp add: goal_def)
qed

lemma goal_Min:
  assumes "finite A" "a \<in> A" "goal O' k (f a)"
  shows "goal O' k (Min (f ` A))"
proof -
  from assms(1,2) have "Min (f ` A) \<le> f a" by (simp add: Min_le)
  with assms(3) show ?thesis by (simp add: goal_def)
qed

theorem fbound_sound:
  assumes "wf_board b" "fbound p k (concat b)"
  shows "goal p k (game_value b)"
  using assms
proof (induction "empties b" arbitrary: b rule: less_induct)
  case less
  let ?c = "concat b"
  have len: "length ?c = 9" using less.prems(1) by (rule wf_board_length_concat)
  show ?case
  proof (cases "terminal b")
    case True
    with less.prems show ?thesis
      by (simp add: game_value.simps utility_flat terminal_flat fbound.simps(1) Let_def)
  next
    case False
    with less.prems(1) have nt: "\<not> (fwinner ?c \<noteq> None \<or> EMPTY \<notin> set ?c)"
      by (simp add: terminal_flat)
    have child: "act m \<in> actions b \<and> goal p k (action_value b (act m))"
      if m: "m < length ?c" "?c ! m = EMPTY" and fb: "fbound p k (?c[m := Some (fplayer ?c)])"
      for m
    proof -
      from m len have m9: "m < 9" by simp
      obtain b' where r: "result b (act m) = Inr b'" "wf_board b'" "empties b' < empties b"
        and cb': "concat b' = ?c[m := Some (player b)]"
        by (rule result_flat [OF less.prems(1) m9 m(2)])
      from fb cb' have "fbound p k (concat b')" by (simp add: player_flat less.prems(1))
      with less.hyps r have "goal p k (game_value b')" by blast
      moreover from less.prems(1) m9 m(2) have "act m \<in> actions b" by (auto simp: actions_flat)
      ultimately show ?thesis using r(1) by (simp add: action_value_def)
    qed
    have gv: "game_value b = (if player b = X then Max else Min) (action_value b ` actions b)"
      using False by (rule game_value_unfold)
    show ?thesis
    proof (cases "player b = p")
      case True
      with less.prems nt have "fbound_ex p k ?c (fmoves ?c)"
        by (simp add: fbound_unfold player_flat)
      then obtain m where "m < length ?c" "?c ! m = EMPTY" "fbound p k (?c[m := Some (fplayer ?c)])"
        by (auto simp: fbound_ex_iff)
      from child [OF this] have a: "act m \<in> actions b" "goal p k (action_value b (act m))" by simp_all
      show ?thesis
      proof (cases p)
        case X
        with True gv goal_Max [OF finite_actions a(1), of k] a(2) show ?thesis by simp
      next
        case O'
        with True gv goal_Min [OF finite_actions a(1), of k] a(2) show ?thesis by simp
      qed
    next
      case False
      with less.prems nt have all: "fbound_all p k ?c (fmoves ?c)"
        by (simp add: fbound_unfold player_flat)
      from less.prems(1) \<open>\<not> terminal b\<close> obtain a where a: "a \<in> actions b"
        and av: "action_value b a = game_value b"
        by (blast dest: game_value_attained)
      from a less.prems(1) obtain m where m: "m < 9" "a = act m" "?c ! m = EMPTY"
        by (auto simp: actions_flat)
      with all len have "fbound p k (?c[m := Some (fplayer ?c)])"
        by (auto simp: fbound_all_iff set_fmoves)
      with child [of m] m len av show ?thesis by simp
    qed
  qed
qed

section \<open>The game from the initial board\<close>

lemma first_moves_drawn:
  "list_all (\<lambda>m. fbound X 0 ((replicate 9 EMPTY)[m := Some X]) \<and>
                 fbound O' 0 ((replicate 9 EMPTY)[m := Some X])) [0, 1, 2, 3, 4, 5, 6, 7, 8]"
  by code_simp

lemma value_zero:
  assumes "wf_board b" "fbound X 0 (concat b)" "fbound O' 0 (concat b)"
  shows "game_value b = 0"
  using fbound_sound [OF assms(1,2)] fbound_sound [OF assms(1,3)] by (simp add: goal_def)

lemma concat_initial_state [simp]: "concat initial_state = replicate 9 EMPTY"
  by (simp add: initial_state_def eval_nat_numeral)

lemma player_initial_flat: "player initial_state = X"
  by (simp add: player_flat fplayer_def)

lemma first_move_value:
  assumes "a \<in> actions initial_state"
  shows "action_value initial_state a = 0"
proof -
  from assms obtain m where m: "m < 9" "a = act m" "concat initial_state ! m = EMPTY"
    by (auto simp: actions_flat)
  obtain b' where r: "result initial_state (act m) = Inr b'" "wf_board b'"
    and cb': "concat b' = (replicate 9 EMPTY)[m := Some X]"
    by (rule result_flat [OF wf_initial_state m(1,3)]) (simp add: player_initial_flat)
  from m(1) have mem: "m \<in> set [0, 1, 2, 3, 4, 5, 6, 7, 8]" using less9_cases by auto
  have "\<forall>m\<in>set [0, 1, 2, 3, 4, 5, 6, 7, 8]. fbound X 0 ((replicate 9 EMPTY)[m := Some X]) \<and>
          fbound O' 0 ((replicate 9 EMPTY)[m := Some X])"
    using first_moves_drawn by (simp only: list_all_iff)
  from bspec [OF this mem] have "fbound X 0 (concat b') \<and> fbound O' 0 (concat b')"
    by (simp only: cb')
  with r(2) have "game_value b' = 0" by (blast intro: value_zero)
  with r(1) m(2) show ?thesis by (simp add: action_value_def)
qed

lemma initial_not_terminal: "\<not> terminal initial_state"
  by (simp add: terminal_flat fwinner_def fwins_def flines_def)

lemma initial_value: "game_value initial_state = 0"
proof -
  have "actions initial_state \<noteq> {}"
    using wf_initial_state initial_not_terminal by (simp add: terminal_iff)
  then have "action_value initial_state ` actions initial_state = {0}"
    using first_move_value by auto
  with initial_not_terminal show ?thesis by (simp add: game_value_unfold)
qed

text \<open>
  C7: tic-tac-toe is a draw. The game value of the initial board is 0, and so is the value of
  each of the nine first moves: no opening move loses or wins against best play.
\<close>

theorem initial_draw:
  "game_value initial_state = 0 \<and> action_value initial_state ` actions initial_state = {0}"
proof
  show "game_value initial_state = 0" by (rule initial_value)
  have "actions initial_state \<noteq> {}"
    using wf_initial_state initial_not_terminal by (simp add: terminal_iff)
  then show "action_value initial_state ` actions initial_state = {0}"
    using first_move_value by auto
qed

end
