(* ===== verification/SelfPlay.thy ===== *)
theory SelfPlay
  imports Evaluator
begin

text \<open>
  Self-play: the driver asks \<^verbatim>\<open>minimax\<close> for a move for whichever side is to move and
  applies it with \<^verbatim>\<open>result\<close>, until \<^verbatim>\<open>minimax\<close> answers \<^verbatim>\<open>None\<close>. The spec's
  end-to-end property is that this game, started from \<^verbatim>\<open>initial_state\<close>, ends and never
  produces a winner. \<open>selfplay it b b'\<close> says that \<open>b'\<close> is reached from \<open>b\<close> that way
  with the iteration order \<open>it\<close>.

  \<open>cpython_order\<close> is the order in which CPython 3.11 iterates the set that
  \<^verbatim>\<open>actions(initial_state())\<close> builds (tuples of small integers hash deterministically);
  \<open>cpython_iter\<close> is an iteration order that agrees with it on that set.
\<close>

inductive selfplay :: "set_iter \<Rightarrow> board \<Rightarrow> board \<Rightarrow> bool" for it where
  start: "selfplay it b b"
| step: "selfplay it b b' \<Longrightarrow> minimax it b' = Inr (Some (Move a)) \<Longrightarrow> result b' a = Inr b'' \<Longrightarrow>
    selfplay it b b''"

definition cpython_order :: "action list" where
  "cpython_order = [(0, 1), (1, 2), (2, 1), (0, 0), (1, 1), (2, 0), (0, 2), (2, 2), (1, 0)]"

definition cpython_iter :: set_iter where
  "cpython_iter S = filter (\<lambda>a. a \<in> S) cpython_order @ sorted_list_of_set (S - set cpython_order)"

section \<open>One move of self-play\<close>

lemma minimax_some_move:
  assumes "valid_iter it" "reachable b" "minimax it b = Inr (Some (Move a))"
  shows "\<not> terminal b \<and> a \<in> actions b \<and> action_value b a = game_value b"
proof -
  from assms(3) have nt: "\<not> terminal b" by (auto simp: minimax_def)
  from minimax_move [OF assms(1) reachable_turn_inv [OF assms(2)] nt] assms(3)
  have "find (\<lambda>x. action_value b x = game_value b) (it (actions b)) = Some a" by auto
  with find_in_iter [OF assms(1)] nt show ?thesis by blast
qed

lemma selfplay_step_value:
  assumes "valid_iter it" "reachable b" "minimax it b = Inr (Some (Move a))" "result b a = Inr b'"
  shows "reachable b' \<and> game_value b' = game_value b"
proof -
  from minimax_some_move [OF assms(1-3)]
  have nt: "\<not> terminal b" and a: "a \<in> actions b" and v: "action_value b a = game_value b"
    by simp_all
  from action_value_child [OF reachable_turn_inv [OF assms(2)] a assms(4)] v
  have "game_value b' = game_value b" by simp
  with reachable.move [OF assms(2) nt assms(4)] show ?thesis by simp
qed

lemma selfplay_invariant:
  assumes "selfplay it b b'" "valid_iter it" "reachable b"
  shows "reachable b' \<and> game_value b' = game_value b"
  using assms
proof (induction rule: selfplay.induct)
  case (step b' a b'')
  then show ?case using selfplay_step_value [OF step.prems(1)] by metis
qed simp

lemma selfplay_reaches_end:
  assumes "valid_iter it" "selfplay it b b'" "reachable b"
  shows "\<exists>b''. selfplay it b b'' \<and> terminal b''"
  using assms(2)
proof (induction "empties b'" arbitrary: b' rule: less_induct)
  case less
  from selfplay_invariant [OF less.prems assms(1,3)] have r: "reachable b'" by simp
  show ?case
  proof (cases "terminal b'")
    case True
    with less.prems show ?thesis by blast
  next
    case False
    from minimax_move [OF assms(1) reachable_turn_inv [OF r] False] obtain a
      where m: "minimax it b' = Inr (Some (Move a))" by blast
    from minimax_some_move [OF assms(1) r m] have a: "a \<in> actions b'" by simp
    obtain b'' where rb: "result b' a = Inr b''" "empties b'' < empties b'"
      by (rule legal_result [OF reachable_wf [OF r] a])
    from selfplay.step [OF less.prems m rb(1)] have "selfplay it b b''" .
    with less.hyps [OF rb(2)] show ?thesis by blast
  qed
qed

lemma winner_value:
  assumes "reachable b" "winner b \<noteq> None"
  shows "game_value b \<noteq> 0"
proof -
  from assms(2) have "terminal b" by (simp add: terminal_def)
  then have "game_value b = utility b" by (simp add: game_value.simps)
  moreover from assms(2) obtain p where "winner b = Some p" by blast
  ultimately show ?thesis by (cases p) (simp_all add: utility_def)
qed

lemma valid_cpython_iter: "valid_iter cpython_iter"
  by (auto simp: valid_iter_def cpython_iter_def)

section \<open>Properties of self-play\<close>

text \<open>
  C8: for every iteration order, self-play with \<^verbatim>\<open>minimax\<close> for both sides from the
  initial board reaches a terminal board with utility 0, and no board of the game has a
  winner: the spec's end-to-end property.
\<close>

theorem selfplay_draw:
  assumes "valid_iter it"
  shows "(\<exists>b'. selfplay it initial_state b' \<and> terminal b' \<and> utility b' = 0) \<and>
         (selfplay it initial_state b \<longrightarrow> winner b = None)"
proof
  have inv: "reachable b' \<and> game_value b' = 0" if "selfplay it initial_state b'" for b'
    using selfplay_invariant [OF that assms reachable.initial] initial_value by simp
  obtain b' where b': "selfplay it initial_state b'" "terminal b'"
    using selfplay_reaches_end [OF assms selfplay.start reachable.initial] by blast
  from inv [OF b'(1)] b'(2) have "utility b' = 0" by (simp add: game_value.simps)
  with b' show "\<exists>b'. selfplay it initial_state b' \<and> terminal b' \<and> utility b' = 0" by blast
  show "selfplay it initial_state b \<longrightarrow> winner b = None"
    using inv winner_value by blast
qed

theorem selfplay_draw_witness:
  "valid_iter sorted_list_of_set \<and>
   (\<exists>b'. selfplay sorted_list_of_set initial_state b' \<and> terminal b' \<and> utility b' = 0) \<and>
   winner initial_state = None"
  using selfplay_draw [OF valid_iter_sorted, of initial_state] selfplay.start valid_iter_sorted
  by blast

text \<open>
  C9: every first move is optimal, so the move \<^verbatim>\<open>minimax\<close> plays on the initial board
  is simply the first action of the iteration order. Under CPython's order that is the edge
  \<open>(0, 1)\<close>, not a corner or the centre.
\<close>

theorem first_move_order:
  assumes "valid_iter it"
  shows "minimax it initial_state = Inr (Some (Move (hd (it (actions initial_state)))))"
proof -
  let ?xs = "it (actions initial_state)"
  obtain a where m: "minimax it initial_state = Inr (Some (Move a))"
    and f: "find (\<lambda>x. action_value initial_state x = game_value initial_state) ?xs = Some a"
    using minimax_move [OF assms reachable_turn_inv [OF reachable.initial] initial_not_terminal]
    by blast
  from assms have set_xs: "set ?xs = actions initial_state" by (simp add: valid_iter_def)
  have "actions initial_state \<noteq> {}"
    using wf_initial_state initial_not_terminal by (simp add: terminal_iff)
  with set_xs obtain y ys where xs: "?xs = y # ys" by (cases ?xs) auto
  with set_xs have "y \<in> actions initial_state" by auto
  then have "action_value initial_state y = game_value initial_state"
    by (simp add: first_move_value initial_value)
  with f xs have "a = y" by simp
  with m xs show ?thesis by simp
qed

theorem first_move_order_witness:
  "valid_iter cpython_iter \<and> minimax cpython_iter initial_state = Inr (Some (Move (0, 1)))"
proof -
  have "(0, 1) \<in> actions initial_state"
    by (simp add: actions_eq get_cell_def initial_state_def coords_def range3_def)
  then have "hd (cpython_iter (actions initial_state)) = (0, 1)"
    by (simp add: cpython_iter_def cpython_order_def)
  with first_move_order [OF valid_cpython_iter] valid_cpython_iter show ?thesis by simp
qed

end
