(* ===== verification/PyDict.thy ===== *)
theory PyDict
  imports Complex_Main Prelude "HOL-Library.AList" "HOL-Library.List_Lexorder"
    "HOL-Library.Char_ord" "HOL-Library.Multiset"
begin

text \<open>
  The Python built-ins the text-ranking module \<^verbatim>\<open>questions.py\<close> relies on.
  A \<^verbatim>\<open>dict\<close> is an association list \<open>('k, 'v) pydict\<close> in insertion order
  (\<^verbatim>\<open>d[k] = v\<close> is \<open>AList.update\<close>, which keeps the position of a present key and
  appends a new one, as CPython does); \<^verbatim>\<open>d[k]\<close> is \<open>dict_get\<close>, raising
  \<open>KeyError\<close>. Iterating a Python \<^verbatim>\<open>set\<close> visits each element once in an
  unspecified order: a \<open>set_iter\<close> is that order, and \<open>valid_set_iter\<close> says it
  enumerates every finite set without repetition. \<^verbatim>\<open>x / y\<close> on numbers is
  \<open>py_div\<close> (real division, raising \<open>ZeroDivisionError\<close>); floats are modelled
  as real numbers. \<^verbatim>\<open>sorted(xs, key=f, reverse=True)\<close> is \<open>py_sorted_rev\<close>,
  written as CPython computes it: reverse, stable sort ascending, reverse again. The slice
  \<^verbatim>\<open>xs[:n]\<close> is \<open>py_slice_to\<close>. The lemmas give the sort its three properties
  (a permutation, descending, stable) and the slice-of-a-sort its top-\<open>n\<close> property,
  which both ranking functions of \<^verbatim>\<open>questions.py\<close> use.
\<close>

type_synonym ('k, 'v) pydict = "('k \<times> 'v) list"

type_synonym 'a set_iter = "'a set \<Rightarrow> 'a list"

definition valid_set_iter :: "'a set_iter \<Rightarrow> bool" where
  "valid_set_iter it \<longleftrightarrow> (\<forall>S. finite S \<longrightarrow> distinct (it S) \<and> set (it S) = S)"

definition dict_get :: "('k, 'v) pydict \<Rightarrow> 'k \<Rightarrow> py_error + 'v" where
  "dict_get d k = (case map_of d k of None \<Rightarrow> Inl KeyError | Some v \<Rightarrow> Inr v)"

definition py_div :: "real \<Rightarrow> real \<Rightarrow> py_error + real" where
  "py_div x y = (if y = 0 then Inl ZeroDivisionError else Inr (x / y))"

definition py_sorted_rev :: "('a \<Rightarrow> 'b::linorder) \<Rightarrow> 'a list \<Rightarrow> 'a list" where
  "py_sorted_rev f xs = rev (sort_key f (rev xs))"

definition py_slice_to :: "'a list \<Rightarrow> int \<Rightarrow> 'a list" where
  "py_slice_to xs n = take (nat (py_norm xs n)) xs"

text \<open>
  \<^verbatim>\<open>[k for k, v in sorted(d.items(), key=lambda x: x[1], reverse=True)][:n]\<close>, the
  ranking step of both \<^verbatim>\<open>top_files\<close> and \<^verbatim>\<open>top_sentences\<close>.
\<close>

definition top_keys :: "('k, 'v::linorder) pydict \<Rightarrow> int \<Rightarrow> 'k list" where
  "top_keys d n = py_slice_to (map fst (py_sorted_rev snd d)) n"

named_theorems pydict_simps "rules evaluating the Python built-ins on concrete values"

declare dict_get_def [pydict_simps] py_div_def [pydict_simps] py_sorted_rev_def [pydict_simps]
  py_slice_to_def [pydict_simps] py_norm_def [pydict_simps]

section \<open>Dictionaries\<close>

lemma dict_get_Inr_iff [simp]: "dict_get d k = Inr v \<longleftrightarrow> map_of d k = Some v"
  by (simp add: dict_get_def split: option.splits)

lemma dict_get_Inl_iff [simp]: "dict_get d k = Inl e \<longleftrightarrow> map_of d k = None \<and> e = KeyError"
  by (auto simp: dict_get_def split: option.splits)

lemma dict_get_Some [simp]: "map_of d k = Some v \<Longrightarrow> dict_get d k = Inr v"
  by simp

lemma dict_get_None [simp]: "map_of d k = None \<Longrightarrow> dict_get d k = Inl KeyError"
  by simp

lemma map_of_Some_in_keys: "map_of d k = Some v \<Longrightarrow> k \<in> fst ` set d"
  by (metis map_of_SomeD fst_conv image_eqI)

lemma map_of_pair_in [simp]: "distinct (map fst d) \<Longrightarrow> (k, v) \<in> set d \<Longrightarrow> map_of d k = Some v"
  by simp

lemma py_div_pos [simp]: "y \<noteq> 0 \<Longrightarrow> py_div x y = Inr (x / y)"
  by (simp add: py_div_def)

section \<open>Set iteration\<close>

lemma valid_set_iterD:
  "valid_set_iter it \<Longrightarrow> finite S \<Longrightarrow> distinct (it S) \<and> set (it S) = S"
  by (simp add: valid_set_iter_def)

lemma valid_sorted_list_of_set: "valid_set_iter sorted_list_of_set"
  by (simp add: valid_set_iter_def)

lemma sum_list_set_iter:
  "valid_set_iter it \<Longrightarrow> finite S \<Longrightarrow> sum_list (map g (it S)) = sum g S"
  using valid_set_iterD [of it S] sum_list_distinct_conv_sum_set [of "it S" g] by simp

lemma set_iter_Nil_iff: "valid_set_iter it \<Longrightarrow> finite S \<Longrightarrow> it S = [] \<longleftrightarrow> S = {}"
  using valid_set_iterD [of it S] by auto

lemma sum_list_map_zero: "\<forall>x\<in>set xs. g x = 0 \<Longrightarrow> sum_list (map g xs) = (0::'b::monoid_add)"
  by (induction xs) simp_all

lemma sum_list_map_nonzero:
  assumes "sum_list (map g xs) \<noteq> (0::'b::monoid_add)"
  shows "\<exists>x\<in>set xs. g x \<noteq> 0"
proof (rule ccontr)
  assume "\<not> (\<exists>x\<in>set xs. g x \<noteq> 0)"
  then have "sum_list (map g xs) = 0" by (intro sum_list_map_zero) simp
  with assms show False by contradiction
qed

section \<open>Sorting, as \<^verbatim>\<open>sorted(..., reverse=True)\<close>\<close>

lemma mset_py_sorted_rev [simp]: "mset (py_sorted_rev f xs) = mset xs"
  by (simp add: py_sorted_rev_def)

lemma set_py_sorted_rev [simp]: "set (py_sorted_rev f xs) = set xs"
  by (simp add: py_sorted_rev_def)

lemma length_py_sorted_rev [simp]: "length (py_sorted_rev f xs) = length xs"
  by (simp add: py_sorted_rev_def)

lemma distinct_py_sorted_rev [simp]: "distinct (py_sorted_rev f xs) \<longleftrightarrow> distinct xs"
  by (simp add: py_sorted_rev_def)

lemma map_fst_py_sorted_rev_distinct:
  "distinct (map fst xs) \<Longrightarrow> distinct (map fst (py_sorted_rev f xs))"
proof -
  have "mset (map fst (py_sorted_rev f xs)) = mset (map fst xs)" by simp
  then show "distinct (map fst xs) \<Longrightarrow> ?thesis" by (metis mset_eq_imp_distinct_iff)
qed

text \<open>Descending in the key: an element never precedes one with a larger key.\<close>

lemma sorted_py_sorted_rev: "sorted_wrt (\<lambda>x y. f y \<le> f x) (py_sorted_rev f xs)"
proof -
  have "sorted (map f (sort_key f (rev xs)))" by (rule sorted_sort_key)
  then have "sorted_wrt (\<lambda>x y. f x \<le> f y) (sort_key f (rev xs))"
    by (simp add: sorted_map)
  then show ?thesis by (simp add: py_sorted_rev_def sorted_wrt_rev)
qed

text \<open>Stable: the elements of one key keep their original order.\<close>

lemma py_sorted_rev_stable:
  "filter (\<lambda>y. f y = k) (py_sorted_rev f xs) = filter (\<lambda>y. f y = k) xs"
  by (simp add: py_sorted_rev_def rev_filter [symmetric] sort_key_stable)

section \<open>Slices\<close>

lemma py_slice_to_nonneg: "0 \<le> n \<Longrightarrow> py_slice_to xs n = take (nat n) xs"
  by (simp add: py_slice_to_def)

lemma set_py_slice_to: "set (py_slice_to xs n) \<subseteq> set xs"
  by (simp add: py_slice_to_def set_take_subset)

lemma distinct_py_slice_to: "distinct xs \<Longrightarrow> distinct (py_slice_to xs n)"
  by (simp add: py_slice_to_def)

lemma sorted_wrt_take_drop:
  "sorted_wrt R xs \<Longrightarrow> x \<in> set (take k xs) \<Longrightarrow> y \<in> set (drop k xs) \<Longrightarrow> R x y"
  by (metis append_take_drop_id sorted_wrt_append)

section \<open>The keys of the top entries of a dictionary\<close>

lemma top_keys_distinct:
  "distinct (map fst d) \<Longrightarrow> distinct (top_keys d n)"
  unfolding top_keys_def by (intro distinct_py_slice_to map_fst_py_sorted_rev_distinct)

lemma top_keys_subset: "set (top_keys d n) \<subseteq> fst ` set d"
  using set_py_slice_to [of "map fst (py_sorted_rev snd d)" n] by (simp add: top_keys_def)

lemma top_keys_length:
  "0 \<le> n \<Longrightarrow> length (top_keys d n) = min (nat n) (length d)"
  by (simp add: top_keys_def py_slice_to_nonneg)

lemma top_keys_ranked:
  assumes d: "distinct (map fst d)" and x: "x \<in> set (top_keys d n)"
    and y: "y \<in> fst ` set d" "y \<notin> set (top_keys d n)"
    and vx: "map_of d x = Some u" and vy: "map_of d y = Some w"
  shows "w \<le> u"
proof -
  define s where "s = py_sorted_rev snd d"
  define k where "k = nat (py_norm (map fst s) n)"
  have ds: "distinct (map fst s)" unfolding s_def using d by (rule map_fst_py_sorted_rev_distinct)
  have ms: "map_of s = map_of d"
    using d ds by (simp add: map_of_inject_set s_def)
  have top: "top_keys d n = map fst (take k s)"
    by (simp add: top_keys_def py_slice_to_def s_def k_def take_map)
  from x top obtain px where px: "px \<in> set (take k s)" "fst px = x" by auto
  from y obtain py where py: "py \<in> set s" "fst py = y" by (auto simp: s_def)
  have "py \<notin> set (take k s)" using y(2) py(2) top by auto
  with py(1) have py_drop: "py \<in> set (drop k s)"
    by (metis append_take_drop_id Un_iff set_append)
  have "snd py \<le> snd px"
    using sorted_wrt_take_drop [OF sorted_py_sorted_rev px(1) [unfolded s_def] py_drop [unfolded s_def]] .
  moreover have "map_of s x = Some (snd px)"
    using px ds by (metis in_set_takeD map_of_is_SomeI prod.collapse)
  moreover have "map_of s y = Some (snd py)"
    using py ds by (metis map_of_is_SomeI prod.collapse)
  ultimately show ?thesis using vx vy ms by simp
qed

end
