(* ===== verification/Idf.thy ===== *)
theory Idf
  imports PyDict
begin

text \<open>
  \<^verbatim>\<open>compute_idfs\<close> of \<^verbatim>\<open>questions.py\<close> (lines 76-100). A corpus is a dictionary
  from document names to their word lists. The first loop builds \<^verbatim>\<open>countDict\<close>, the
  number of documents containing each word, iterating the set \<^verbatim>\<open>uniqueWords\<close> in the
  order \<open>it\<close> and, for each word, the documents in dictionary order
  (\<open>count_contents\<close>, \<open>count_words\<close>); the second turns each count into
  \<^verbatim>\<open>np.log(numDocs/count)\<close> (\<open>idf_loop\<close>). The reference is \<open>idf_spec\<close>, the
  textbook inverse document frequency \<open>ln (N / df w)\<close> of every word of the corpus.
\<close>

type_synonym document = "string list"

type_synonym corpus = "(string, document) pydict"

text \<open>\<^verbatim>\<open>for content in documents.values(): if word in content: countDict[word] += 1\<close>\<close>

fun count_contents :: "string \<Rightarrow> (string, nat) pydict \<Rightarrow> document list \<Rightarrow> (string, nat) pydict" where
  "count_contents word countDict [] = countDict"
| "count_contents word countDict (content # contents) =
     (if word \<in> set content then
        count_contents word
          (case map_of countDict word of
             Some c \<Rightarrow> AList.update word (c + 1) countDict
           | None \<Rightarrow> AList.update word 1 countDict) contents
      else count_contents word countDict contents)"

text \<open>\<^verbatim>\<open>for word in uniqueWords: ...\<close>\<close>

fun count_words :: "document list \<Rightarrow> (string, nat) pydict \<Rightarrow> string list \<Rightarrow> (string, nat) pydict" where
  "count_words contents countDict [] = countDict"
| "count_words contents countDict (word # words) =
     count_words contents (count_contents word countDict contents) words"

text \<open>\<^verbatim>\<open>for word, count in countDict.items(): idfDict[word] = np.log(numDocs/count)\<close>
  (the local \<open>count\<close> is \<open>count'\<close>: \<open>count\<close> names the multiplicity of a multiset)\<close>

fun idf_loop :: "nat \<Rightarrow> (string, nat) pydict \<Rightarrow> (string, real) pydict \<Rightarrow> py_error + (string, real) pydict" where
  "idf_loop numDocs [] idfDict = Inr idfDict"
| "idf_loop numDocs ((word, count') # items) idfDict =
     (case py_div (real numDocs) (real count') of
        Inl e \<Rightarrow> Inl e
      | Inr q \<Rightarrow> idf_loop numDocs items (AList.update word (ln q) idfDict))"

definition compute_idfs :: "string set_iter \<Rightarrow> corpus \<Rightarrow> py_error + (string, real) pydict" where
  "compute_idfs it documents =
     (let countDict = [];
          uniqueWords = set (concat (map snd documents));
          countDict = count_words (map snd documents) countDict (it uniqueWords);
          numDocs = length documents;
          idfDict = []
      in idf_loop numDocs countDict idfDict)"

definition doc_freq :: "document list \<Rightarrow> string \<Rightarrow> nat" where
  "doc_freq contents w = length (filter (\<lambda>content. w \<in> set content) contents)"

definition idf_spec :: "corpus \<Rightarrow> string \<Rightarrow> real option" where
  "idf_spec documents w =
     (if w \<in> set (concat (map snd documents))
      then Some (ln (real (length documents) / real (doc_freq (map snd documents) w)))
      else None)"

lemmas idf_eval = compute_idfs_def doc_freq_def idf_spec_def pydict_simps insert_Diff_if

section \<open>Document frequencies\<close>

lemma doc_freq_pos_iff: "0 < doc_freq contents w \<longleftrightarrow> w \<in> set (concat contents)"
  by (auto simp: doc_freq_def filter_empty_conv)

lemma doc_freq_le: "doc_freq contents w \<le> length contents"
  by (simp add: doc_freq_def)

lemma doc_freq_eq_length_iff:
  "doc_freq contents w = length contents \<longleftrightarrow> (\<forall>c\<in>set contents. w \<in> set c)"
  unfolding doc_freq_def by (metis filter_True length_filter_less less_irrefl_nat)

section \<open>The counting loops\<close>

abbreviation count_base :: "(string, nat) pydict \<Rightarrow> string \<Rightarrow> nat" where
  "count_base d w \<equiv> (case map_of d w of None \<Rightarrow> 0 | Some c \<Rightarrow> c)"

lemma count_contents_other [simp]:
  "x \<noteq> word \<Longrightarrow> map_of (count_contents word d contents) x = map_of d x"
  by (induction contents arbitrary: d) (auto simp: update_conv split: option.splits)

lemma count_contents_word:
  "map_of (count_contents word d contents) word =
     (if doc_freq contents word = 0 then map_of d word
      else Some (count_base d word + doc_freq contents word))"
  by (induction contents arbitrary: d) (auto simp: doc_freq_def update_conv split: option.splits)

lemma count_contents_distinct:
  "distinct (map fst d) \<Longrightarrow> distinct (map fst (count_contents word d contents))"
  by (induction contents arbitrary: d) (auto simp: distinct_update split: option.splits)

lemma count_words_map_of:
  "distinct ws \<Longrightarrow>
   map_of (count_words contents d ws) w =
     (if w \<in> set ws \<and> doc_freq contents w \<noteq> 0
      then Some (count_base d w + doc_freq contents w) else map_of d w)"
proof (induction ws arbitrary: d)
  case Nil
  then show ?case by simp
next
  case (Cons word ws)
  then have ih: "map_of (count_words contents (count_contents word d contents) ws) w =
      (if w \<in> set ws \<and> doc_freq contents w \<noteq> 0
       then Some (count_base (count_contents word d contents) w + doc_freq contents w)
       else map_of (count_contents word d contents) w)" by simp
  show ?case
  proof (cases "w = word")
    case True
    with Cons.prems have "w \<notin> set ws" by simp
    with True ih show ?thesis by (simp add: count_contents_word)
  next
    case False
    with ih show ?thesis by simp
  qed
qed

lemma count_words_distinct:
  "distinct (map fst d) \<Longrightarrow> distinct (map fst (count_words contents d ws))"
  by (induction ws arbitrary: d) (simp_all add: count_contents_distinct)

section \<open>The logarithm loop\<close>

lemma idf_loop_ok:
  "\<forall>x\<in>set items. 0 < snd x \<Longrightarrow>
   idf_loop n items acc =
     Inr (foldl (\<lambda>d (w, c). AList.update w (ln (real n / real c)) d) acc items)"
  by (induction items arbitrary: acc) auto

lemma map_of_foldl_update:
  "distinct (map fst items) \<Longrightarrow>
   map_of (foldl (\<lambda>d (w, c). AList.update w (g c) d) acc items) w =
     (case map_of items w of Some c \<Rightarrow> Some (g c) | None \<Rightarrow> map_of acc w)"
proof (induction items arbitrary: acc)
  case Nil
  then show ?case by simp
next
  case (Cons p items)
  obtain k c where p: "p = (k, c)" by (cases p)
  show ?case
  proof (cases "w = k")
    case True
    with Cons.prems p have "map_of items w = None" by (simp add: map_of_eq_None_iff)
    with Cons p True show ?thesis by (simp add: update_conv)
  next
    case False
    with Cons p show ?thesis by (simp add: update_conv split: option.splits)
  qed
qed

lemma distinct_foldl_update:
  "distinct (map fst acc) \<Longrightarrow>
   distinct (map fst (foldl (\<lambda>d (w, c). AList.update w (g c) d) acc items))"
  by (induction items arbitrary: acc) (auto simp: distinct_update)

section \<open>\<^verbatim>\<open>compute_idfs\<close> against the specification\<close>

lemma count_dict_corpus:
  assumes "valid_set_iter it"
  shows "map_of (count_words (map snd documents) [] (it (set (concat (map snd documents))))) w =
     (if w \<in> set (concat (map snd documents)) then Some (doc_freq (map snd documents) w) else None)"
proof -
  let ?U = "set (concat (map snd documents))"
  have it: "distinct (it ?U)" "set (it ?U) = ?U" using valid_set_iterD [OF assms] by simp_all
  show ?thesis
    by (simp only: count_words_map_of [OF it(1)] it(2) doc_freq_pos_iff [symmetric]) simp
qed

lemma count_dict_positive:
  assumes "distinct (map fst d)" "\<forall>w c. map_of d w = Some c \<longrightarrow> 0 < c"
  shows "\<forall>x\<in>set d. 0 < snd x"
  using assms by (metis map_of_is_SomeI prod.collapse)

lemma compute_idfs_ok:
  assumes "valid_set_iter it"
  shows "\<exists>d. compute_idfs it documents = Inr d \<and> map_of d = idf_spec documents \<and>
             distinct (map fst d)"
proof -
  define C where "C = count_words (map snd documents) [] (it (set (concat (map snd documents))))"
  have dC: "distinct (map fst C)" unfolding C_def by (rule count_words_distinct) simp
  have mC: "map_of C w = (if w \<in> set (concat (map snd documents))
                           then Some (doc_freq (map snd documents) w) else None)" for w
    unfolding C_def by (rule count_dict_corpus [OF assms])
  have pos: "\<forall>x\<in>set C. 0 < snd x"
    using dC by (intro count_dict_positive) (auto simp: mC doc_freq_pos_iff split: if_splits)
  define D where "D = foldl (\<lambda>d (w, c). AList.update w (ln (real (length documents) / real c)) d) [] C"
  have "compute_idfs it documents = Inr D"
    unfolding compute_idfs_def Let_def C_def [symmetric] D_def by (rule idf_loop_ok [OF pos])
  moreover have "map_of D = idf_spec documents"
    by (rule ext) (simp add: D_def map_of_foldl_update [OF dC] mC idf_spec_def)
  moreover have "distinct (map fst D)" unfolding D_def by (rule distinct_foldl_update) simp
  ultimately show ?thesis by blast
qed

lemma idf_spec_bounds:
  assumes "idf_spec documents w = Some v"
  shows "0 \<le> v \<and> v \<le> ln (real (length documents)) \<and>
         (v = 0 \<longleftrightarrow> (\<forall>c\<in>set (map snd documents). w \<in> set c))"
proof -
  let ?N = "length documents" and ?k = "doc_freq (map snd documents) w"
  from assms have w: "w \<in> set (concat (map snd documents))" and v: "v = ln (real ?N / real ?k)"
    by (auto simp: idf_spec_def split: if_splits)
  have k0: "0 < ?k" using w by (simp add: doc_freq_pos_iff)
  have kN: "?k \<le> ?N" using doc_freq_le [of "map snd documents" w] by simp
  have q1: "1 \<le> real ?N / real ?k" using k0 kN by simp
  have "0 < ?N" using k0 kN by linarith
  then have N0: "0 < real ?N" by simp
  have qN: "real ?N / real ?k \<le> real ?N" using k0 N0 by (simp add: divide_le_eq mult_le_cancel_left1)
  have "0 \<le> v" using q1 v by simp
  moreover have "v \<le> ln (real ?N)" using q1 qN N0 v by simp
  moreover have "v = 0 \<longleftrightarrow> ?k = ?N"
  proof -
    have "v = 0 \<longleftrightarrow> real ?N / real ?k = 1" using q1 v by (simp add: ln_eq_zero_iff)
    also have "\<dots> \<longleftrightarrow> ?k = ?N" using k0 by auto
    finally show ?thesis .
  qed
  ultimately show ?thesis using doc_freq_eq_length_iff [of "map snd documents" w] by simp
qed

section \<open>Properties of \<^verbatim>\<open>compute_idfs\<close>\<close>

text \<open>
  C22: whatever order the set \<^verbatim>\<open>uniqueWords\<close> is iterated in, \<^verbatim>\<open>compute_idfs\<close>
  never raises (no \<^verbatim>\<open>ZeroDivisionError\<close>) and returns a dictionary with exactly one
  entry per word of the corpus, the word's inverse document frequency
  \<open>ln (numDocs / df w)\<close>.
\<close>

theorem compute_idfs_spec:
  assumes "valid_set_iter it"
  shows "\<exists>d. compute_idfs it documents = Inr d \<and> map_of d = idf_spec documents \<and>
             distinct (map fst d)"
  using compute_idfs_ok [OF assms] .

theorem compute_idfs_spec_witness:
  "valid_set_iter sorted_list_of_set \<and>
   (\<exists>d. compute_idfs sorted_list_of_set [(''d1'', [''a'', ''b'']), (''d2'', [''a''])] = Inr d \<and>
        map_of d = idf_spec [(''d1'', [''a'', ''b'']), (''d2'', [''a''])] \<and> distinct (map fst d)) \<and>
   idf_spec [(''d1'', [''a'', ''b'']), (''d2'', [''a''])] ''b'' = Some (ln 2)"
  using compute_idfs_spec [OF valid_sorted_list_of_set, of "[(''d1'', [''a'', ''b'']), (''d2'', [''a''])]"]
  by (simp add: valid_sorted_list_of_set idf_eval)

text \<open>
  C23: every idf value lies between 0 and \<open>ln numDocs\<close>, and it is 0 exactly for the
  words that occur in every document.
\<close>

theorem compute_idfs_bounds:
  assumes "valid_set_iter it" "compute_idfs it documents = Inr d" "(w, v) \<in> set d"
  shows "0 \<le> v \<and> v \<le> ln (real (length documents)) \<and>
         (v = 0 \<longleftrightarrow> (\<forall>c\<in>set (map snd documents). w \<in> set c))"
proof -
  from compute_idfs_ok [OF assms(1), of documents] assms(2)
  have "map_of d = idf_spec documents" "distinct (map fst d)" by auto
  with assms(3) have "idf_spec documents w = Some v" by (metis map_of_pair_in)
  then show ?thesis by (rule idf_spec_bounds)
qed

theorem compute_idfs_bounds_witness:
  "valid_set_iter sorted_list_of_set \<and>
   compute_idfs sorted_list_of_set [(''d1'', [''a'', ''b'']), (''d2'', [''a''])] =
     Inr [(''a'', 0), (''b'', ln 2)] \<and>
   (''b'', ln 2) \<in> set [(''a'', 0), (''b'', ln (2::real))] \<and>
   0 \<le> ln (2::real) \<and> ln (2::real) \<le> ln (real (length [(''d1'', [''a'', ''b'']), (''d2'', [''a''])]))"
proof -
  have run: "compute_idfs sorted_list_of_set [(''d1'', [''a'', ''b'']), (''d2'', [''a''])] =
      Inr [(''a'', 0), (''b'', ln 2)]"
    by (simp add: idf_eval)
  have "0 \<le> ln (2::real) \<and> ln (2::real) \<le> ln (real (length [(''d1'', [''a'', ''b'']), (''d2'', [''a''])])) \<and>
        (ln (2::real) = 0 \<longleftrightarrow> (\<forall>c\<in>set (map snd [(''d1'', [''a'', ''b'']), (''d2'', [''a''])]). ''b'' \<in> set c))"
    using compute_idfs_bounds [OF valid_sorted_list_of_set run, of "''b''" "ln 2"] by simp
  with run show ?thesis by (simp add: valid_sorted_list_of_set)
qed

end
