(* ===== verification/Ranking.thy ===== *)
theory Ranking
  imports Idf
begin

text \<open>
  The two ranking functions of \<^verbatim>\<open>questions.py\<close>. \<^verbatim>\<open>top_files\<close> (lines 103-122)
  sums, for every query word in the set order \<open>it\<close> and every file in dictionary order,
  \<^verbatim>\<open>tf * idfs[word]\<close> into \<^verbatim>\<open>tfidfDict\<close> (\<open>tfidf_add\<close> is the
  \<^verbatim>\<open>try\<close>/\<^verbatim>\<open>except KeyError\<close> block, \<open>tfidf_files\<close> the inner loop,
  \<open>tfidf_query\<close> the outer one) and returns the names of the \<open>n\<close> best files.
  \<^verbatim>\<open>top_sentences\<close> (lines 125-148) sums the idf of every query word a sentence
  contains (\<open>sentence_score\<close>), keeps the sentences with a non-zero sum together with a
  density (\<open>score_sentences\<close>) and returns the \<open>n\<close> best by the pair. The loop
  variable \<^verbatim>\<open>word\<close> outlives the query loop, so the density is computed for the
  last query word of the iteration: \<open>score_sentences\<close> carries it as an argument,
  \<open>None\<close> before any assignment (reading it then raises \<open>UnboundLocalError\<close>).
  The references are \<open>tfidf_spec\<close> (the sum over the query of term frequency times idf,
  for the files containing a query word) and \<open>sentence_spec\<close>.
\<close>

type_synonym idf_dict = "(string, real) pydict"

text \<open>
  \<^verbatim>\<open>try: tfidfDict[nameFile] += tf*idfs[word]\<close>
  \<^verbatim>\<open>except KeyError: tfidfDict[nameFile] = tf*idfs[word]\<close>:
  the augmented assignment reads \<^verbatim>\<open>tfidfDict[nameFile]\<close> first, then
  \<^verbatim>\<open>idfs[word]\<close>; a \<open>KeyError\<close> from either runs the handler, which reads
  \<^verbatim>\<open>idfs[word]\<close> again.
\<close>

definition tfidf_add ::
  "idf_dict \<Rightarrow> string \<Rightarrow> nat \<Rightarrow> string \<Rightarrow> (string, real) pydict \<Rightarrow> py_error + (string, real) pydict" where
  "tfidf_add idfs word tf nameFile tfidfDict =
     (let handler =
        (case dict_get idfs word of
           Inl e \<Rightarrow> Inl e
         | Inr v \<Rightarrow> Inr (AList.update nameFile (real tf * v) tfidfDict))
      in case dict_get tfidfDict nameFile of
           Inl e \<Rightarrow> if e = KeyError then handler else Inl e
         | Inr s \<Rightarrow>
             (case dict_get idfs word of
                Inl e \<Rightarrow> if e = KeyError then handler else Inl e
              | Inr v \<Rightarrow> Inr (AList.update nameFile (s + real tf * v) tfidfDict)))"

text \<open>\<^verbatim>\<open>for nameFile, content in files.items(): tf = content.count(word); if tf: ...\<close>\<close>

fun tfidf_files ::
  "idf_dict \<Rightarrow> string \<Rightarrow> (string, real) pydict \<Rightarrow> corpus \<Rightarrow> py_error + (string, real) pydict" where
  "tfidf_files idfs word tfidfDict [] = Inr tfidfDict"
| "tfidf_files idfs word tfidfDict ((nameFile, content) # items) =
     (let tf = count_list content word in
      if tf \<noteq> 0 then
        (case tfidf_add idfs word tf nameFile tfidfDict of
           Inl e \<Rightarrow> Inl e
         | Inr tfidfDict' \<Rightarrow> tfidf_files idfs word tfidfDict' items)
      else tfidf_files idfs word tfidfDict items)"

text \<open>\<^verbatim>\<open>for word in query: ...\<close>\<close>

fun tfidf_query ::
  "idf_dict \<Rightarrow> corpus \<Rightarrow> (string, real) pydict \<Rightarrow> string list \<Rightarrow> py_error + (string, real) pydict" where
  "tfidf_query idfs files tfidfDict [] = Inr tfidfDict"
| "tfidf_query idfs files tfidfDict (word # words) =
     (case tfidf_files idfs word tfidfDict files of
        Inl e \<Rightarrow> Inl e
      | Inr tfidfDict' \<Rightarrow> tfidf_query idfs files tfidfDict' words)"

definition top_files ::
  "string set_iter \<Rightarrow> string set \<Rightarrow> corpus \<Rightarrow> idf_dict \<Rightarrow> int \<Rightarrow> py_error + string list" where
  "top_files it query files idfs n =
     (let tfidfDict = [] in
      case tfidf_query idfs files tfidfDict (it query) of
        Inl e \<Rightarrow> Inl e
      | Inr tfidfDict \<Rightarrow> Inr (top_keys tfidfDict n))"

text \<open>
  \<^verbatim>\<open>for word in query: if word in words: try: score += idfs[word]\<close>
  \<^verbatim>\<open>except KeyError: score = idfs[word]\<close>; \<open>score_add\<close> is the
  \<^verbatim>\<open>try\<close> block, whose handler reads \<^verbatim>\<open>idfs[word]\<close> again.
\<close>

definition score_add :: "idf_dict \<Rightarrow> string \<Rightarrow> real \<Rightarrow> py_error + real" where
  "score_add idfs word score =
     (let handler = dict_get idfs word in
      case dict_get idfs word of
        Inl e \<Rightarrow> if e = KeyError then handler else Inl e
      | Inr v \<Rightarrow> Inr (score + v))"

fun sentence_score :: "idf_dict \<Rightarrow> document \<Rightarrow> real \<Rightarrow> string list \<Rightarrow> py_error + real" where
  "sentence_score idfs words score [] = Inr score"
| "sentence_score idfs words score (word # query) =
     (if word \<in> set words then
        (case score_add idfs word score of
           Inl e \<Rightarrow> Inl e
         | Inr score' \<Rightarrow> sentence_score idfs words score' query)
      else sentence_score idfs words score query)"

text \<open>
  \<^verbatim>\<open>for sentence, words in sentences.items(): score = 0; ...; if score:\<close>
  \<^verbatim>\<open>density = words.count(word)/len(words); scoreDict[sentence] = (score, density)\<close>.
  The argument \<open>word\<close> is the function's local \<^verbatim>\<open>word\<close>: the query loop leaves it
  at the last word it visited.
\<close>

fun score_sentences ::
  "string list \<Rightarrow> idf_dict \<Rightarrow> corpus \<Rightarrow> string option \<Rightarrow> (string, real \<times> real) pydict \<Rightarrow>
   py_error + (string, real \<times> real) pydict" where
  "score_sentences query idfs [] word scoreDict = Inr scoreDict"
| "score_sentences query idfs ((sentence, words) # items) word scoreDict =
     (let score = 0 in
      case sentence_score idfs words score query of
        Inl e \<Rightarrow> Inl e
      | Inr score \<Rightarrow>
          (let word = (if query = [] then word else Some (last query)) in
           if score \<noteq> 0 then
             (case word of
                None \<Rightarrow> Inl UnboundLocalError
              | Some w \<Rightarrow>
                  (case py_div (real (count_list words w)) (real (length words)) of
                     Inl e \<Rightarrow> Inl e
                   | Inr density \<Rightarrow>
                       score_sentences query idfs items word
                         (AList.update sentence (score, density) scoreDict)))
           else score_sentences query idfs items word scoreDict))"

definition top_sentences ::
  "string set_iter \<Rightarrow> string set \<Rightarrow> corpus \<Rightarrow> idf_dict \<Rightarrow> int \<Rightarrow> py_error + string list" where
  "top_sentences it query sentences idfs n =
     (let scoreDict = [] in
      case score_sentences (it query) idfs sentences None scoreDict of
        Inl e \<Rightarrow> Inl e
      | Inr scoreDict \<Rightarrow> Inr (top_keys scoreDict n))"

section \<open>Specifications\<close>

definition idf_of :: "idf_dict \<Rightarrow> string \<Rightarrow> real" where
  "idf_of idfs w = (case map_of idfs w of Some v \<Rightarrow> v | None \<Rightarrow> 0)"

definition matches :: "string set \<Rightarrow> document \<Rightarrow> bool" where
  "matches query content \<longleftrightarrow> (\<exists>w\<in>query. w \<in> set content)"

text \<open>The tf-idf score of a file for a query, as the docstring of \<^verbatim>\<open>top_files\<close> ranks.\<close>

definition tf_idf :: "string set \<Rightarrow> idf_dict \<Rightarrow> document \<Rightarrow> real" where
  "tf_idf query idfs content = (\<Sum>w\<in>query. real (count_list content w) * idf_of idfs w)"

definition tfidf_spec :: "string set \<Rightarrow> idf_dict \<Rightarrow> corpus \<Rightarrow> string \<Rightarrow> real option" where
  "tfidf_spec query idfs files name =
     (case map_of files name of
        None \<Rightarrow> None
      | Some content \<Rightarrow> if matches query content then Some (tf_idf query idfs content) else None)"

text \<open>The sum of the idfs of the query words a sentence contains (the "matching word measure").\<close>

definition idf_score :: "string set \<Rightarrow> idf_dict \<Rightarrow> document \<Rightarrow> real" where
  "idf_score query idfs words = (\<Sum>w\<in>query. if w \<in> set words then idf_of idfs w else 0)"

text \<open>What the docstring calls query term density: the share of the sentence's words
  that are query words.\<close>

definition query_density :: "string set \<Rightarrow> document \<Rightarrow> real" where
  "query_density query words = real (length (filter (\<lambda>w. w \<in> query) words)) / real (length words)"

text \<open>The entry \<^verbatim>\<open>scoreDict\<close> holds for a sentence, given the last query word \<open>lw\<close>.\<close>

definition sentence_spec ::
  "string set \<Rightarrow> string \<Rightarrow> idf_dict \<Rightarrow> corpus \<Rightarrow> string \<Rightarrow> (real \<times> real) option" where
  "sentence_spec query lw idfs sentences s =
     (case map_of sentences s of
        None \<Rightarrow> None
      | Some words \<Rightarrow>
          if idf_score query idfs words \<noteq> 0
          then Some (idf_score query idfs words, real (count_list words lw) / real (length words))
          else None)"

definition idfs_cover :: "string set \<Rightarrow> corpus \<Rightarrow> idf_dict \<Rightarrow> bool" where
  "idfs_cover query files idfs \<longleftrightarrow>
     (\<forall>w\<in>query. \<forall>x\<in>set files. w \<in> set (snd x) \<longrightarrow> map_of idfs w \<noteq> None)"

lemmas ranking_eval = top_files_def top_sentences_def tfidf_add_def score_add_def top_keys_def
  pydict_simps

abbreviation score_base :: "(string, 'v::zero) pydict \<Rightarrow> string \<Rightarrow> 'v" where
  "score_base d k \<equiv> (case map_of d k of None \<Rightarrow> 0 | Some s \<Rightarrow> s)"

section \<open>\<^verbatim>\<open>top_files\<close>: the inner loop\<close>

lemma tfidf_add_ok:
  "map_of idfs word = Some v \<Longrightarrow>
   tfidf_add idfs word tf name d = Inr (AList.update name (score_base d name + real tf * v) d)"
  by (auto simp: tfidf_add_def Let_def dict_get_def split: option.splits)

lemma tfidf_add_missing:
  "map_of idfs word = None \<Longrightarrow> tfidf_add idfs word tf name d = Inl KeyError"
  by (auto simp: tfidf_add_def Let_def dict_get_def split: option.splits)

definition tfidf_step :: "real \<Rightarrow> string \<Rightarrow> (string, real) pydict \<Rightarrow> corpus \<Rightarrow> (string, real) pydict" where
  "tfidf_step v word =
     foldl (\<lambda>d (name, c). if word \<in> set c
                          then AList.update name (score_base d name + real (count_list c word) * v) d
                          else d)"

lemma tfidf_files_ok:
  "map_of idfs word = Some v \<Longrightarrow> tfidf_files idfs word d files = Inr (tfidf_step v word d files)"
  by (induction files arbitrary: d) (auto simp: tfidf_step_def tfidf_add_ok count_list_0_iff Let_def)

lemma tfidf_files_absent:
  "\<forall>x\<in>set files. word \<notin> set (snd x) \<Longrightarrow> tfidf_files idfs word d files = Inr d"
  by (induction files arbitrary: d) (auto simp: count_list_0_iff)

lemma tfidf_files_missing:
  "map_of idfs word = None \<Longrightarrow> \<exists>x\<in>set files. word \<in> set (snd x) \<Longrightarrow>
   tfidf_files idfs word d files = Inl KeyError"
proof (induction files arbitrary: d)
  case Nil
  then show ?case by simp
next
  case (Cons x files)
  obtain name c where x: "x = (name, c)" by (cases x)
  show ?case
  proof (cases "word \<in> set c")
    case True
    with Cons.prems x show ?thesis by (simp add: tfidf_add_missing count_list_0_iff Let_def)
  next
    case False
    with Cons x show ?thesis by (simp add: count_list_0_iff)
  qed
qed

lemma map_of_tfidf_step:
  "distinct (map fst files) \<Longrightarrow>
   map_of (tfidf_step v word d files) name =
     (case map_of files name of
        Some c \<Rightarrow> if word \<in> set c then Some (score_base d name + real (count_list c word) * v)
                  else map_of d name
      | None \<Rightarrow> map_of d name)"
proof (induction files arbitrary: d)
  case Nil
  then show ?case by (simp add: tfidf_step_def)
next
  case (Cons x files)
  obtain k c where x: "x = (k, c)" by (cases x)
  with Cons.prems have k: "map_of files k = None" by (simp add: map_of_eq_None_iff)
  show ?case
    using Cons k unfolding x by (auto simp: tfidf_step_def update_conv split: option.splits)
qed

lemma distinct_tfidf_step:
  "distinct (map fst d) \<Longrightarrow> distinct (map fst (tfidf_step v word d files))"
  by (induction files arbitrary: d) (auto simp: tfidf_step_def distinct_update)

section \<open>\<^verbatim>\<open>top_files\<close>: the query loop\<close>

abbreviation occurs :: "string \<Rightarrow> corpus \<Rightarrow> bool" where
  "occurs w files \<equiv> \<exists>x\<in>set files. w \<in> set (snd x)"

abbreviation tf_sum :: "idf_dict \<Rightarrow> string list \<Rightarrow> document \<Rightarrow> real" where
  "tf_sum idfs ws c \<equiv> sum_list (map (\<lambda>w. real (count_list c w) * idf_of idfs w) ws)"

lemma tf_sum_absent: "\<forall>w\<in>set ws. w \<notin> set c \<Longrightarrow> tf_sum idfs ws c = 0"
  by (intro sum_list_map_zero) (simp add: count_list_0_iff)

lemma tfidf_files_covered:
  assumes "occurs word files \<longrightarrow> map_of idfs word \<noteq> None" "distinct (map fst files)"
  shows "\<exists>d'. tfidf_files idfs word d files = Inr d' \<and>
           (distinct (map fst d) \<longrightarrow> distinct (map fst d')) \<and>
           (\<forall>name. map_of d' name =
              (case map_of files name of
                 Some c \<Rightarrow> if word \<in> set c
                           then Some (score_base d name + real (count_list c word) * idf_of idfs word)
                           else map_of d name
               | None \<Rightarrow> map_of d name))"
proof (cases "map_of idfs word")
  case None
  with assms(1) have "\<not> occurs word files" by blast
  then have "\<forall>c\<in>snd ` set files. word \<notin> set c" by blast
  then have "map_of files name = Some c \<Longrightarrow> word \<notin> set c" for name c
    by (metis map_of_SomeD image_eqI snd_conv)
  with \<open>\<not> occurs word files\<close> show ?thesis
    by (auto simp: tfidf_files_absent split: option.splits)
next
  case (Some v)
  then have "idf_of idfs word = v" by (simp add: idf_of_def)
  with Some show ?thesis
    by (simp add: tfidf_files_ok map_of_tfidf_step [OF assms(2)] distinct_tfidf_step
        split: option.split)
qed

lemma tfidf_query_ok:
  assumes "\<forall>w\<in>set ws. occurs w files \<longrightarrow> map_of idfs w \<noteq> None" "distinct (map fst files)"
  shows "\<exists>d'. tfidf_query idfs files d ws = Inr d' \<and>
           (distinct (map fst d) \<longrightarrow> distinct (map fst d')) \<and>
           (\<forall>name. map_of d' name =
              (case map_of files name of
                 Some c \<Rightarrow> if \<exists>w\<in>set ws. w \<in> set c
                           then Some (score_base d name + tf_sum idfs ws c)
                           else map_of d name
               | None \<Rightarrow> map_of d name))"
  using assms(1)
proof (induction ws arbitrary: d)
  case Nil
  then show ?case by (simp split: option.splits)
next
  case (Cons w ws)
  from Cons.prems have cov: "occurs w files \<longrightarrow> map_of idfs w \<noteq> None" by simp
  obtain d1 where d1: "tfidf_files idfs w d files = Inr d1"
    "distinct (map fst d) \<longrightarrow> distinct (map fst d1)"
    "\<And>name. map_of d1 name = (case map_of files name of
        Some c \<Rightarrow> if w \<in> set c
                  then Some (score_base d name + real (count_list c w) * idf_of idfs w)
                  else map_of d name
      | None \<Rightarrow> map_of d name)"
    using tfidf_files_covered [OF cov assms(2)] by blast
  from Cons.prems have "\<forall>w\<in>set ws. occurs w files \<longrightarrow> map_of idfs w \<noteq> None" by simp
  from Cons.IH [OF this] obtain d' where d': "tfidf_query idfs files d1 ws = Inr d'"
    "distinct (map fst d1) \<longrightarrow> distinct (map fst d')"
    "\<And>name. map_of d' name = (case map_of files name of
        Some c \<Rightarrow> if \<exists>w\<in>set ws. w \<in> set c then Some (score_base d1 name + tf_sum idfs ws c)
                  else map_of d1 name
      | None \<Rightarrow> map_of d1 name)"
    by blast
  have "map_of d' name =
     (case map_of files name of
        Some c \<Rightarrow> if \<exists>w'\<in>set (w # ws). w' \<in> set c
                  then Some (score_base d name + tf_sum idfs (w # ws) c)
                  else map_of d name
      | None \<Rightarrow> map_of d name)" for name
  proof (cases "map_of files name")
    case None
    then show ?thesis by (simp add: d'(3) d1(3))
  next
    case (Some c)
    show ?thesis
    proof (cases "w \<in> set c")
      case True
      then show ?thesis using Some tf_sum_absent [of ws c idfs]
        by (auto simp: d'(3) d1(3))
    next
      case False
      then have "count_list c w = 0" by (simp add: count_list_0_iff)
      with False Some show ?thesis by (simp add: d'(3) d1(3))
    qed
  qed
  with d1 d' show ?case by auto
qed

lemma tfidf_query_error:
  "\<exists>w\<in>set ws. occurs w files \<and> map_of idfs w = None \<Longrightarrow>
   tfidf_query idfs files d ws = Inl KeyError"
proof (induction ws arbitrary: d)
  case Nil
  then show ?case by simp
next
  case (Cons w ws)
  show ?case
  proof (cases "occurs w files \<and> map_of idfs w = None")
    case True
    then show ?thesis by (simp add: tfidf_files_missing)
  next
    case False
    with Cons.prems have "\<exists>w\<in>set ws. occurs w files \<and> map_of idfs w = None" by simp
    moreover obtain d1 where "tfidf_files idfs w d files = Inr d1"
      using False by (cases "map_of idfs w") (auto simp: tfidf_files_ok tfidf_files_absent)
    ultimately show ?thesis using Cons.IH by simp
  qed
qed

section \<open>\<^verbatim>\<open>top_sentences\<close>: scores\<close>

abbreviation idf_sum :: "idf_dict \<Rightarrow> string list \<Rightarrow> document \<Rightarrow> real" where
  "idf_sum idfs ws words \<equiv> sum_list (map (\<lambda>w. if w \<in> set words then idf_of idfs w else 0) ws)"

lemma score_add_ok: "map_of idfs w = Some v \<Longrightarrow> score_add idfs w s = Inr (s + v)"
  by (simp add: score_add_def)

lemma score_add_missing: "map_of idfs w = None \<Longrightarrow> score_add idfs w s = Inl KeyError"
  by (simp add: score_add_def)

lemma sentence_score_ok:
  "\<forall>w\<in>set ws. w \<in> set words \<longrightarrow> map_of idfs w \<noteq> None \<Longrightarrow>
   sentence_score idfs words s ws = Inr (s + idf_sum idfs ws words)"
  by (induction ws arbitrary: s) (auto simp: score_add_ok idf_of_def algebra_simps)

lemma sentence_score_error:
  "\<exists>w\<in>set ws. w \<in> set words \<and> map_of idfs w = None \<Longrightarrow>
   sentence_score idfs words s ws = Inl KeyError"
  by (induction ws arbitrary: s) (auto simp: score_add_def dict_get_def Let_def split: option.splits)

lemma idf_sum_nonzero:
  assumes "idf_sum idfs ws words \<noteq> 0"
  shows "\<exists>w\<in>set ws. w \<in> set words"
proof -
  from sum_list_map_nonzero [OF assms] obtain w
    where "w \<in> set ws" "(if w \<in> set words then idf_of idfs w else 0) \<noteq> 0" by blast
  then show ?thesis by (auto split: if_splits)
qed


lemma score_sentences_ok:
  assumes "distinct (map fst sentences)"
    and "\<forall>x\<in>set sentences. \<forall>w\<in>set ws. w \<in> set (snd x) \<longrightarrow> map_of idfs w \<noteq> None"
  shows "\<exists>d. score_sentences ws idfs sentences word acc = Inr d \<and>
           (distinct (map fst acc) \<longrightarrow> distinct (map fst d)) \<and>
           (\<forall>s. map_of d s =
              (case map_of sentences s of
                 Some words \<Rightarrow>
                   if idf_sum idfs ws words \<noteq> 0
                   then Some (idf_sum idfs ws words,
                              real (count_list words (last ws)) / real (length words))
                   else map_of acc s
               | None \<Rightarrow> map_of acc s))"
  using assms
proof (induction sentences arbitrary: word acc)
  case Nil
  then show ?case by (simp split: option.split)
next
  case (Cons x items)
  obtain s0 words where x: "x = (s0, words)" by (cases x)
  have sc: "sentence_score idfs words 0 ws = Inr (idf_sum idfs ws words)"
    using Cons.prems(2) x by (simp add: sentence_score_ok)
  have items: "distinct (map fst items)" and s0: "map_of items s0 = None"
    using Cons.prems(1) x by (auto simp: map_of_eq_None_iff)
  have cov: "\<forall>x\<in>set items. \<forall>w\<in>set ws. w \<in> set (snd x) \<longrightarrow> map_of idfs w \<noteq> None"
    using Cons.prems(2) by simp
  note IH = Cons.IH [OF items cov]
  show ?case
  proof (cases "idf_sum idfs ws words = 0")
    case True
    from IH obtain d where d: "score_sentences ws idfs items (if ws = [] then word else Some (last ws)) acc = Inr d"
      "distinct (map fst acc) \<longrightarrow> distinct (map fst d)"
      "\<And>s. map_of d s = (case map_of items s of
         Some words \<Rightarrow> if idf_sum idfs ws words \<noteq> 0
           then Some (idf_sum idfs ws words, real (count_list words (last ws)) / real (length words))
           else map_of acc s
       | None \<Rightarrow> map_of acc s)" by blast
    have run: "score_sentences ws idfs (x # items) word acc = Inr d"
      using True sc d(1) unfolding x by (simp add: Let_def)
    show ?thesis
      using run d(2,3) s0 True unfolding x by (auto split: option.split)
  next
    case False
    then obtain w where w: "w \<in> set ws" "w \<in> set words" using idf_sum_nonzero by blast
    then have ws: "ws \<noteq> []" and len: "real (length words) \<noteq> 0" by auto
    define acc' where "acc' = AList.update s0
        (idf_sum idfs ws words, real (count_list words (last ws)) / real (length words)) acc"
    from IH obtain d where d: "score_sentences ws idfs items (Some (last ws)) acc' = Inr d"
      "distinct (map fst acc') \<longrightarrow> distinct (map fst d)"
      "\<And>s. map_of d s = (case map_of items s of
         Some words \<Rightarrow> if idf_sum idfs ws words \<noteq> 0
           then Some (idf_sum idfs ws words, real (count_list words (last ws)) / real (length words))
           else map_of acc' s
       | None \<Rightarrow> map_of acc' s)" by blast
    have run: "score_sentences ws idfs (x # items) word acc = Inr d"
      using False sc ws len d(1) unfolding x acc'_def by (simp add: Let_def)
    show ?thesis
      using run d(2,3) s0 False unfolding x acc'_def
      by (auto simp: update_conv distinct_update split: option.split)
  qed
qed

section \<open>From the loops to the specifications\<close>

lemma dom_of_map_of: "map_of d = f \<Longrightarrow> fst ` set d = dom f"
  by (metis dom_map_of_conv_image_fst)

lemma idfs_cover_iter:
  assumes "valid_set_iter it" "finite query" "idfs_cover query files idfs"
  shows "\<forall>w\<in>set (it query). occurs w files \<longrightarrow> map_of idfs w \<noteq> None"
proof -
  have "set (it query) = query" using valid_set_iterD [OF assms(1,2)] by simp
  with assms(3) show ?thesis by (auto simp: idfs_cover_def)
qed

lemma tfidf_query_spec:
  assumes "valid_set_iter it" "finite query" "distinct (map fst files)" "idfs_cover query files idfs"
  obtains d where "tfidf_query idfs files [] (it query) = Inr d" "distinct (map fst d)"
    "map_of d = tfidf_spec query idfs files"
proof -
  have iq: "set (it query) = query" using valid_set_iterD [OF assms(1,2)] by simp
  obtain d where d: "tfidf_query idfs files [] (it query) = Inr d" "distinct (map fst d)"
    "\<forall>name. map_of d name = (case map_of files name of
       Some c \<Rightarrow> if \<exists>w\<in>set (it query). w \<in> set c
                 then Some (score_base [] name + tf_sum idfs (it query) c) else map_of [] name
     | None \<Rightarrow> map_of [] name)"
    using tfidf_query_ok [OF idfs_cover_iter [OF assms(1,2,4)] assms(3), of "[]"] by auto
  have "map_of d name = tfidf_spec query idfs files name" for name
    by (simp add: d(3) iq tfidf_spec_def matches_def tf_idf_def sum_list_set_iter [OF assms(1,2)]
        split: option.split)
  with d(1,2) show ?thesis by (intro that) auto
qed

lemma top_keys_spec:
  assumes "distinct (map fst d)" "map_of d = f" "0 \<le> n"
  shows "distinct (top_keys d n) \<and> length (top_keys d n) = min (nat n) (card (dom f)) \<and>
         set (top_keys d n) \<subseteq> dom f \<and>
         (\<forall>x\<in>set (top_keys d n). \<forall>y u w. f x = Some u \<longrightarrow> f y = Some w \<longrightarrow>
            y \<notin> set (top_keys d n) \<longrightarrow> w \<le> u)"
proof -
  have keys: "fst ` set d = dom f" using assms(2) by (rule dom_of_map_of)
  have "length d = card (dom f)"
    using distinct_card [OF assms(1)] keys by simp
  moreover have "\<forall>x\<in>set (top_keys d n). \<forall>y u w. f x = Some u \<longrightarrow> f y = Some w \<longrightarrow>
      y \<notin> set (top_keys d n) \<longrightarrow> w \<le> u"
    using top_keys_ranked [OF assms(1)] keys assms(2) by blast
  moreover have "length (top_keys d n) = min (nat n) (length d)"
    using assms(3) by (rule top_keys_length)
  ultimately show ?thesis
    using top_keys_distinct [OF assms(1)] top_keys_subset [of d n] keys by simp
qed

lemma score_sentences_spec:
  assumes "valid_set_iter it" "finite query" "distinct (map fst sentences)"
    "idfs_cover query sentences idfs"
  obtains d where "score_sentences (it query) idfs sentences None [] = Inr d" "distinct (map fst d)"
    "map_of d = sentence_spec query (last (it query)) idfs sentences"
proof -
  have iq: "set (it query) = query" using valid_set_iterD [OF assms(1,2)] by simp
  have cov: "\<forall>x\<in>set sentences. \<forall>w\<in>set (it query). w \<in> set (snd x) \<longrightarrow> map_of idfs w \<noteq> None"
    using assms(4) iq by (auto simp: idfs_cover_def)
  obtain d where d: "score_sentences (it query) idfs sentences None [] = Inr d" "distinct (map fst d)"
    "\<forall>s. map_of d s = (case map_of sentences s of
       Some words \<Rightarrow> if idf_sum idfs (it query) words \<noteq> 0
         then Some (idf_sum idfs (it query) words,
                    real (count_list words (last (it query))) / real (length words))
         else map_of [] s
     | None \<Rightarrow> map_of [] s)"
    using score_sentences_ok [OF assms(3) cov, of None "[]"] by auto
  have "idf_sum idfs (it query) words = idf_score query idfs words" for words
    by (simp add: idf_score_def sum_list_set_iter [OF assms(1,2)])
  then have "map_of d s = sentence_spec query (last (it query)) idfs sentences s" for s
    by (simp add: d(3) sentence_spec_def split: option.split)
  with d(1,2) show ?thesis by (intro that) auto
qed

lemma compute_idfs_cover:
  assumes "valid_set_iter it" "compute_idfs it docs = Inr idfs"
  shows "idfs_cover query docs idfs" and "map_of idfs = idf_spec docs"
proof -
  from compute_idfs_ok [OF assms(1), of docs] assms(2) show m: "map_of idfs = idf_spec docs" by auto
  show "idfs_cover query docs idfs"
    unfolding idfs_cover_def m by (auto simp: idf_spec_def)
qed

lemma tfidf_spec_Some:
  "tfidf_spec query idfs files f = Some u \<longleftrightarrow>
   (\<exists>c. map_of files f = Some c \<and> matches query c \<and> u = tf_idf query idfs c)"
  by (auto simp: tfidf_spec_def split: option.splits)

lemma dom_tfidf_spec:
  "dom (tfidf_spec query idfs files) = {f. \<exists>c. map_of files f = Some c \<and> matches query c}"
  by (auto simp: tfidf_spec_Some)

lemma sentence_spec_Some:
  "sentence_spec query lw idfs sentences s = Some u \<longleftrightarrow>
   (\<exists>ws. map_of sentences s = Some ws \<and> idf_score query idfs ws \<noteq> 0 \<and>
         u = (idf_score query idfs ws, real (count_list ws lw) / real (length ws)))"
  by (auto simp: sentence_spec_def split: option.splits)

lemma dom_sentence_spec:
  "dom (sentence_spec query lw idfs sentences) =
   {s. \<exists>ws. map_of sentences s = Some ws \<and> idf_score query idfs ws \<noteq> 0}"
  by (auto simp: sentence_spec_Some)

lemma set_iter_two:
  assumes "valid_set_iter it" "a \<noteq> b" "last (it {a, b}) = b"
  shows "it {a, b} = [a, b]"
proof -
  have d: "distinct (it {a, b})" and s: "set (it {a, b}) = {a, b}"
    using valid_set_iterD [OF assms(1), of "{a, b}"] by simp_all
  then have "length (it {a, b}) = 2" using assms(2) by (metis distinct_card card_2_iff)
  then obtain x y where xy: "it {a, b} = [x, y]"
    by (metis (no_types) length_0_conv length_Suc_conv numeral_2_eq_2)
  with assms(3) have "y = b" by simp
  with xy s d assms(2) show ?thesis by auto
qed

section \<open>Properties of \<^verbatim>\<open>top_files\<close>\<close>

text \<open>
  C24: when every query word that occurs in some file has an idf, \<^verbatim>\<open>tfidfDict\<close> holds,
  for every iteration order of the query, exactly the files containing a query word, each
  with its tf-idf score (the sum over the query of the word's count in the file times its
  idf), and \<^verbatim>\<open>top_files\<close> returns the ranking of that dictionary.
\<close>

theorem top_files_scores:
  assumes "valid_set_iter it" "finite query" "distinct (map fst files)" "idfs_cover query files idfs"
  shows "\<exists>d. tfidf_query idfs files [] (it query) = Inr d \<and> map_of d = tfidf_spec query idfs files \<and>
             top_files it query files idfs n = Inr (top_keys d n)"
proof -
  obtain d where "tfidf_query idfs files [] (it query) = Inr d"
    "map_of d = tfidf_spec query idfs files"
    using tfidf_query_spec [OF assms] by blast
  then show ?thesis by (auto simp: top_files_def)
qed

theorem top_files_scores_witness:
  "valid_set_iter sorted_list_of_set \<and> finite {''cat''} \<and>
   distinct (map fst [(''f1'', [''dog'']), (''f2'', [''cat'', ''cat'', ''dog''])]) \<and>
   idfs_cover {''cat''} [(''f1'', [''dog'']), (''f2'', [''cat'', ''cat'', ''dog''])] [(''cat'', 1)] \<and>
   (\<exists>d. tfidf_query [(''cat'', 1)] [(''f1'', [''dog'']), (''f2'', [''cat'', ''cat'', ''dog''])] []
          (sorted_list_of_set {''cat''}) = Inr d \<and>
        map_of d = tfidf_spec {''cat''} [(''cat'', 1)] [(''f1'', [''dog'']), (''f2'', [''cat'', ''cat'', ''dog''])] \<and>
        top_files sorted_list_of_set {''cat''} [(''f1'', [''dog'']), (''f2'', [''cat'', ''cat'', ''dog''])]
          [(''cat'', 1)] 1 = Inr (top_keys d 1))"
proof -
  have cov: "idfs_cover {''cat''} [(''f1'', [''dog'']), (''f2'', [''cat'', ''cat'', ''dog''])] [(''cat'', 1)]"
    by (simp add: idfs_cover_def)
  show ?thesis
    using top_files_scores [OF valid_sorted_list_of_set _ _ cov, of 1] cov
    by (simp add: valid_sorted_list_of_set)
qed

text \<open>
  C25: \<^verbatim>\<open>top_files\<close> returns at most \<open>n\<close> distinct names, as many as there are files
  containing a query word when fewer; each contains a query word, and every matching file
  left out scores no higher than every file returned.
\<close>

theorem top_files_ranked:
  assumes "valid_set_iter it" "finite query" "distinct (map fst files)"
    "idfs_cover query files idfs" "0 \<le> n" "top_files it query files idfs n = Inr names"
  shows "distinct names \<and>
         length names = min (nat n) (card {f. \<exists>c. map_of files f = Some c \<and> matches query c}) \<and>
         (\<forall>f\<in>set names. \<exists>c. map_of files f = Some c \<and> matches query c) \<and>
         (\<forall>f\<in>set names. \<forall>g cf cg. map_of files f = Some cf \<longrightarrow> map_of files g = Some cg \<longrightarrow>
            matches query cg \<longrightarrow> g \<notin> set names \<longrightarrow> tf_idf query idfs cg \<le> tf_idf query idfs cf)"
proof -
  obtain d where d: "tfidf_query idfs files [] (it query) = Inr d" "distinct (map fst d)"
    "map_of d = tfidf_spec query idfs files"
    using tfidf_query_spec [OF assms(1-4)] by blast
  with assms(6) have names: "names = top_keys d n" by (simp add: top_files_def)
  note top = top_keys_spec [OF d(2,3) assms(5), unfolded names [symmetric] dom_tfidf_spec]
  have "\<forall>f\<in>set names. \<forall>g cf cg. map_of files f = Some cf \<longrightarrow> map_of files g = Some cg \<longrightarrow>
      matches query cg \<longrightarrow> g \<notin> set names \<longrightarrow> tf_idf query idfs cg \<le> tf_idf query idfs cf"
  proof (intro ballI allI impI)
    fix f g cf cg
    assume f: "f \<in> set names" and cf: "map_of files f = Some cf" and cg: "map_of files g = Some cg"
      and m: "matches query cg" and g: "g \<notin> set names"
    from f top have "matches query cf" using cf by auto
    with cf cg m have "tfidf_spec query idfs files f = Some (tf_idf query idfs cf)"
      "tfidf_spec query idfs files g = Some (tf_idf query idfs cg)"
      by (simp_all add: tfidf_spec_Some)
    with top f g show "tf_idf query idfs cg \<le> tf_idf query idfs cf" by blast
  qed
  with top show ?thesis by blast
qed

theorem top_files_ranked_witness:
  "valid_set_iter sorted_list_of_set \<and> finite {''cat'', ''dog''} \<and>
   distinct (map fst [(''f1'', [''dog'']), (''f2'', [''cat'', ''cat'', ''dog''])]) \<and>
   idfs_cover {''cat'', ''dog''} [(''f1'', [''dog'']), (''f2'', [''cat'', ''cat'', ''dog''])]
     [(''cat'', 1), (''dog'', 0)] \<and> (0::int) \<le> 1 \<and>
   top_files sorted_list_of_set {''cat'', ''dog''} [(''f1'', [''dog'']), (''f2'', [''cat'', ''cat'', ''dog''])]
     [(''cat'', 1), (''dog'', 0)] 1 = Inr [''f2''] \<and>
   length [''f2''] = min (nat 1) (card {f. \<exists>c. map_of [(''f1'', [''dog'']), (''f2'', [''cat'', ''cat'', ''dog''])] f = Some c \<and>
                                          matches {''cat'', ''dog''} c})"
proof -
  have cov: "idfs_cover {''cat'', ''dog''} [(''f1'', [''dog'']), (''f2'', [''cat'', ''cat'', ''dog''])]
      [(''cat'', 1), (''dog'', 0)]"
    by (simp add: idfs_cover_def)
  have run: "top_files sorted_list_of_set {''cat'', ''dog''} [(''f1'', [''dog'']), (''f2'', [''cat'', ''cat'', ''dog''])]
      [(''cat'', 1), (''dog'', 0)] 1 = Inr [''f2'']"
    by (simp add: ranking_eval)
  show ?thesis
    using top_files_ranked [OF valid_sorted_list_of_set _ _ cov _ run] cov run
    by (simp add: valid_sorted_list_of_set)
qed

text \<open>
  C26: \<^verbatim>\<open>top_files\<close> raises exactly when some query word occurring in a file has no
  idf, and then the error is \<open>KeyError\<close>; it raises nothing else.
\<close>

theorem top_files_key_error:
  assumes "valid_set_iter it" "finite query" "distinct (map fst files)"
  shows "top_files it query files idfs n = Inl e \<longleftrightarrow> e = KeyError \<and> \<not> idfs_cover query files idfs"
proof (cases "idfs_cover query files idfs")
  case True
  obtain d where "tfidf_query idfs files [] (it query) = Inr d"
    using tfidf_query_spec [OF assms True] by blast
  with True show ?thesis by (simp add: top_files_def)
next
  case False
  have iq: "set (it query) = query" using valid_set_iterD [OF assms(1,2)] by simp
  from False have "\<exists>w\<in>set (it query). occurs w files \<and> map_of idfs w = None"
    unfolding iq idfs_cover_def by auto
  then have "tfidf_query idfs files [] (it query) = Inl KeyError" by (rule tfidf_query_error)
  with False show ?thesis by (auto simp: top_files_def)
qed

theorem top_files_key_error_witness:
  "valid_set_iter sorted_list_of_set \<and> finite {''cat''} \<and>
   distinct (map fst [(''f1'', [''cat''])]) \<and>
   top_files sorted_list_of_set {''cat''} [(''f1'', [''cat''])] [] 1 = Inl KeyError"
proof -
  have "\<not> idfs_cover {''cat''} [(''f1'', [''cat''])] []" by (simp add: idfs_cover_def)
  then show ?thesis
    using top_files_key_error [OF valid_sorted_list_of_set, of "{''cat''}" "[(''f1'', [''cat''])]" "[]" 1 KeyError]
    by (simp add: valid_sorted_list_of_set)
qed

text \<open>
  C27: ranking files with the idfs \<^verbatim>\<open>compute_idfs\<close> computed from the same files, as
  \<^verbatim>\<open>main\<close> does, never raises.
\<close>

theorem top_files_own_idfs:
  assumes "valid_set_iter it" "finite query" "distinct (map fst files)"
    "compute_idfs it files = Inr idfs"
  shows "\<exists>names. top_files it query files idfs n = Inr names"
proof -
  have "idfs_cover query files idfs" using compute_idfs_cover [OF assms(1,4)] by blast
  from tfidf_query_spec [OF assms(1-3) this] obtain d
    where "tfidf_query idfs files [] (it query) = Inr d" by blast
  then show ?thesis by (simp add: top_files_def)
qed

theorem top_files_own_idfs_witness:
  "valid_set_iter sorted_list_of_set \<and> finite {''cat''} \<and> distinct (map fst [(''f1'', [''cat''])]) \<and>
   compute_idfs sorted_list_of_set [(''f1'', [''cat''])] = Inr [(''cat'', 0)] \<and>
   (\<exists>names. top_files sorted_list_of_set {''cat''} [(''f1'', [''cat''])] [(''cat'', 0)] 1 = Inr names)"
proof -
  have run: "compute_idfs sorted_list_of_set [(''f1'', [''cat''])] = Inr [(''cat'', 0)]"
    by (simp add: idf_eval)
  show ?thesis
    using top_files_own_idfs [OF valid_sorted_list_of_set _ _ run, of "{''cat''}" 1] run
    by (simp add: valid_sorted_list_of_set)
qed

section \<open>Properties of \<^verbatim>\<open>top_sentences\<close>\<close>

text \<open>
  C28: when every query word that occurs in a sentence has an idf, \<^verbatim>\<open>scoreDict\<close>
  holds exactly the sentences whose query words have a non-zero idf sum, each with that
  sum and, as density, the frequency in the sentence of the query word the loop visited
  last; \<^verbatim>\<open>top_sentences\<close> returns the ranking of that dictionary by the pair.
\<close>

theorem top_sentences_scores:
  assumes "valid_set_iter it" "finite query" "distinct (map fst sentences)"
    "idfs_cover query sentences idfs"
  shows "\<exists>d. score_sentences (it query) idfs sentences None [] = Inr d \<and>
             map_of d = sentence_spec query (last (it query)) idfs sentences \<and>
             top_sentences it query sentences idfs n = Inr (top_keys d n)"
proof -
  obtain d where "score_sentences (it query) idfs sentences None [] = Inr d"
    "map_of d = sentence_spec query (last (it query)) idfs sentences"
    using score_sentences_spec [OF assms] by blast
  then show ?thesis by (auto simp: top_sentences_def)
qed

theorem top_sentences_scores_witness:
  "valid_set_iter sorted_list_of_set \<and> finite {''a''} \<and>
   distinct (map fst [(''s1'', [''a'', ''b'']), (''s2'', [''b''])]) \<and>
   idfs_cover {''a''} [(''s1'', [''a'', ''b'']), (''s2'', [''b''])] [(''a'', 1)] \<and>
   (\<exists>d. score_sentences (sorted_list_of_set {''a''}) [(''a'', 1)]
          [(''s1'', [''a'', ''b'']), (''s2'', [''b''])] None [] = Inr d \<and>
        map_of d = sentence_spec {''a''} (last (sorted_list_of_set {''a''})) [(''a'', 1)]
          [(''s1'', [''a'', ''b'']), (''s2'', [''b''])] \<and>
        top_sentences sorted_list_of_set {''a''} [(''s1'', [''a'', ''b'']), (''s2'', [''b''])]
          [(''a'', 1)] 1 = Inr (top_keys d 1))"
proof -
  have cov: "idfs_cover {''a''} [(''s1'', [''a'', ''b'']), (''s2'', [''b''])] [(''a'', 1)]"
    by (simp add: idfs_cover_def)
  show ?thesis
    using top_sentences_scores [OF valid_sorted_list_of_set _ _ cov, of 1] cov
    by (simp add: valid_sorted_list_of_set)
qed

text \<open>
  C29: \<^verbatim>\<open>top_sentences\<close> returns at most \<open>n\<close> distinct sentences, as many as have a
  non-zero score when fewer; each has a non-zero score, and every scored sentence left out
  has a (score, density) pair no larger than that of every sentence returned.
\<close>

theorem top_sentences_ranked:
  assumes "valid_set_iter it" "finite query" "distinct (map fst sentences)"
    "idfs_cover query sentences idfs" "0 \<le> n" "top_sentences it query sentences idfs n = Inr out"
  shows "distinct out \<and>
         length out = min (nat n)
           (card {s. \<exists>ws. map_of sentences s = Some ws \<and> idf_score query idfs ws \<noteq> 0}) \<and>
         (\<forall>s\<in>set out. \<exists>ws. map_of sentences s = Some ws \<and> idf_score query idfs ws \<noteq> 0) \<and>
         (\<forall>s\<in>set out. \<forall>t u v. sentence_spec query (last (it query)) idfs sentences s = Some u \<longrightarrow>
            sentence_spec query (last (it query)) idfs sentences t = Some v \<longrightarrow> t \<notin> set out \<longrightarrow> v \<le> u)"
proof -
  obtain d where d: "score_sentences (it query) idfs sentences None [] = Inr d" "distinct (map fst d)"
    "map_of d = sentence_spec query (last (it query)) idfs sentences"
    using score_sentences_spec [OF assms(1-4)] by blast
  with assms(6) have out: "out = top_keys d n" by (simp add: top_sentences_def)
  show ?thesis
    using top_keys_spec [OF d(2,3) assms(5), unfolded out [symmetric] dom_sentence_spec] by blast
qed

theorem top_sentences_ranked_witness:
  "valid_set_iter sorted_list_of_set \<and> finite {''a''} \<and>
   distinct (map fst [(''s1'', [''a'', ''b'']), (''s2'', [''a''])]) \<and>
   idfs_cover {''a''} [(''s1'', [''a'', ''b'']), (''s2'', [''a''])] [(''a'', 1)] \<and> (0::int) \<le> 1 \<and>
   top_sentences sorted_list_of_set {''a''} [(''s1'', [''a'', ''b'']), (''s2'', [''a''])] [(''a'', 1)] 1 =
     Inr [''s2''] \<and>
   distinct [''s2'']"
proof -
  have cov: "idfs_cover {''a''} [(''s1'', [''a'', ''b'']), (''s2'', [''a''])] [(''a'', 1)]"
    by (simp add: idfs_cover_def)
  have run: "top_sentences sorted_list_of_set {''a''} [(''s1'', [''a'', ''b'']), (''s2'', [''a''])]
      [(''a'', 1)] 1 = Inr [''s2'']"
    by (simp add: ranking_eval)
  show ?thesis
    using top_sentences_ranked [OF valid_sorted_list_of_set _ _ cov _ run] cov run
    by (simp add: valid_sorted_list_of_set)
qed

text \<open>
  C30: the density that breaks ties is not the docstring's query term density. With the
  query \<open>{a, b}\<close> iterated with \<open>b\<close> last and two sentences of equal score, the code
  prefers the sentence in which \<open>b\<close> is more frequent, although the other one consists of
  query words only.
\<close>

theorem top_sentences_density_last_word:
  assumes "valid_set_iter it" "last (it {''a'', ''b''}) = ''b''"
  shows "top_sentences it {''a'', ''b''}
           [(''s1'', [''a'', ''b'']), (''s2'', [''a'', ''b'', ''b'', ''b'', ''c''])] [(''a'', 1), (''b'', 1)] 1 =
           Inr [''s2''] \<and>
         idf_score {''a'', ''b''} [(''a'', 1), (''b'', 1)] [''a'', ''b''] =
           idf_score {''a'', ''b''} [(''a'', 1), (''b'', 1)] [''a'', ''b'', ''b'', ''b'', ''c''] \<and>
         query_density {''a'', ''b''} [''a'', ''b'', ''b'', ''b'', ''c''] <
           query_density {''a'', ''b''} [''a'', ''b'']"
proof -
  have it: "it {''a'', ''b''} = [''a'', ''b'']" using set_iter_two [OF assms(1) _ assms(2)] by simp
  have "top_sentences it {''a'', ''b''}
           [(''s1'', [''a'', ''b'']), (''s2'', [''a'', ''b'', ''b'', ''b'', ''c''])] [(''a'', 1), (''b'', 1)] 1 =
           Inr [''s2'']"
    by (simp add: ranking_eval it)
  moreover have "idf_score {''a'', ''b''} [(''a'', 1), (''b'', 1)] [''a'', ''b''] =
           idf_score {''a'', ''b''} [(''a'', 1), (''b'', 1)] [''a'', ''b'', ''b'', ''b'', ''c'']"
    by (simp add: idf_score_def idf_of_def)
  moreover have "query_density {''a'', ''b''} [''a'', ''b'', ''b'', ''b'', ''c''] <
           query_density {''a'', ''b''} [''a'', ''b'']"
    by (simp add: query_density_def)
  ultimately show ?thesis by blast
qed

theorem top_sentences_density_last_word_witness:
  "valid_set_iter sorted_list_of_set \<and> last (sorted_list_of_set {''a'', ''b''}) = ''b'' \<and>
   top_sentences sorted_list_of_set {''a'', ''b''}
     [(''s1'', [''a'', ''b'']), (''s2'', [''a'', ''b'', ''b'', ''b'', ''c''])] [(''a'', 1), (''b'', 1)] 1 =
     Inr [''s2'']"
proof -
  have "last (sorted_list_of_set {''a'', ''b''}) = ''b''" by simp
  then show ?thesis
    using top_sentences_density_last_word [OF valid_sorted_list_of_set] by (simp add: valid_sorted_list_of_set)
qed

text \<open>
  C31: with the idfs computed from the sentences themselves, as \<^verbatim>\<open>main\<close> does, a
  sentence whose query words all occur in every sentence scores 0 and is never returned,
  although it matches the query: for a corpus of a single sentence the answer is always
  empty.
\<close>

theorem top_sentences_drops_common_words:
  assumes "valid_set_iter it" "finite query" "distinct (map fst sentences)"
    "compute_idfs it sentences = Inr idfs" "(s, words) \<in> set sentences"
    "\<forall>w\<in>query. w \<in> set words \<longrightarrow> (\<forall>x\<in>set sentences. w \<in> set (snd x))"
  shows "\<exists>out. top_sentences it query sentences idfs n = Inr out \<and> s \<notin> set out"
proof -
  have cov: "idfs_cover query sentences idfs" and m: "map_of idfs = idf_spec sentences"
    using compute_idfs_cover [OF assms(1,4)] by blast+
  obtain d where d: "score_sentences (it query) idfs sentences None [] = Inr d" "distinct (map fst d)"
    "map_of d = sentence_spec query (last (it query)) idfs sentences"
    using score_sentences_spec [OF assms(1-3) cov] by blast
  have zero: "idf_of idfs w = 0" if "w \<in> query" "w \<in> set words" for w
  proof -
    have all: "\<forall>c\<in>set (map snd sentences). w \<in> set c" using assms(6) that by auto
    have "w \<in> set (concat (map snd sentences))" using assms(5) that(2) by force
    then obtain v where v: "idf_spec sentences w = Some v" by (simp add: idf_spec_def)
    with all have "v = 0" using idf_spec_bounds [OF v] by blast
    with v m show ?thesis by (simp add: idf_of_def)
  qed
  have "idf_score query idfs words = 0"
    unfolding idf_score_def by (intro sum.neutral) (simp add: zero)
  moreover have "map_of sentences s = Some words" using assms(3,5) by simp
  ultimately have "s \<notin> dom (map_of d)" unfolding d(3) dom_sentence_spec by simp
  then have "s \<notin> set (top_keys d n)"
    using top_keys_subset [of d n] by (auto simp: dom_map_of_conv_image_fst)
  with d(1) show ?thesis by (simp add: top_sentences_def)
qed

theorem top_sentences_drops_common_words_witness:
  "valid_set_iter sorted_list_of_set \<and> finite {''a''} \<and> distinct (map fst [(''s'', [''a''])]) \<and>
   compute_idfs sorted_list_of_set [(''s'', [''a''])] = Inr [(''a'', 0)] \<and>
   top_sentences sorted_list_of_set {''a''} [(''s'', [''a''])] [(''a'', 0)] 1 = Inr []"
proof -
  have run: "compute_idfs sorted_list_of_set [(''s'', [''a''])] = Inr [(''a'', 0)]"
    by (simp add: idf_eval)
  obtain out where "top_sentences sorted_list_of_set {''a''} [(''s'', [''a''])] [(''a'', 0)] 1 = Inr out"
    "''s'' \<notin> set out"
    using top_sentences_drops_common_words [OF valid_sorted_list_of_set _ _ run, of "{''a''}" "''s''" "[''a'']" 1]
    by auto
  moreover have "top_sentences sorted_list_of_set {''a''} [(''s'', [''a''])] [(''a'', 0)] 1 = Inr []"
    by (simp add: ranking_eval)
  ultimately show ?thesis using run by (simp add: valid_sorted_list_of_set)
qed

end
