(* ===== verification/Questions.thy ===== *)
theory Questions
  imports Ranking
begin

text \<open>
  The driver of \<^verbatim>\<open>questions.py\<close>: \<^verbatim>\<open>tokenize\<close> (lines 63-74) and the ranking
  pipeline of \<^verbatim>\<open>main\<close> (lines 17-47). The corpus \<^verbatim>\<open>load_files\<close> reads from disk
  is the argument \<open>files\<close> (a dictionary from file names to their text), the line read by
  \<^verbatim>\<open>input("Query: ")\<close> is the argument \<open>query_line\<close>, and the printed matches are
  the result. NLTK is a library the code only calls: \<^verbatim>\<open>nltk.word_tokenize\<close> and
  \<^verbatim>\<open>nltk.sent_tokenize\<close> are the parameters \<open>word_tokenize\<close> and
  \<open>sent_tokenize\<close>. A HOL \<open>char\<close> has 256 values; it stands for the Unicode code
  point of the same number, so a \<open>string\<close> is a text over U+0000..U+00FF (ASCII and
  Latin-1). On those code points \<^verbatim>\<open>str.lower\<close> and \<^verbatim>\<open>str.isalpha\<close> are
  modelled exactly as CPython computes them (\<open>py_lower\<close>, \<open>py_isalpha\<close>: the upper-case
  letters are A..Z and U+00C0..U+00DE without U+00D7, each lowered by adding 32; the letters
  add a..z, U+00AA, U+00B5, U+00BA and U+00C0..U+00FF without U+00D7 and U+00F7), and
  \<^verbatim>\<open>str.split("\n")\<close> exactly (\<open>py_split_nl\<close>).
\<close>

definition FILE_MATCHES :: int where
  "FILE_MATCHES = 1"

definition SENTENCE_MATCHES :: int where
  "SENTENCE_MATCHES = 1"

abbreviation newline :: char where
  "newline \<equiv> CHR 0x0A"

text \<open>The code points \<^verbatim>\<open>str.lower\<close> changes, and those \<^verbatim>\<open>str.isalpha\<close> accepts.\<close>

definition is_upper :: "char \<Rightarrow> bool" where
  "is_upper c \<longleftrightarrow>
     (let n = of_char c :: nat in (0x41 \<le> n \<and> n \<le> 0x5A) \<or> (0xC0 \<le> n \<and> n \<le> 0xDE \<and> n \<noteq> 0xD7))"

definition is_alpha_char :: "char \<Rightarrow> bool" where
  "is_alpha_char c \<longleftrightarrow>
     (let n = of_char c :: nat in
      (0x41 \<le> n \<and> n \<le> 0x5A) \<or> (0x61 \<le> n \<and> n \<le> 0x7A) \<or> n = 0xAA \<or> n = 0xB5 \<or> n = 0xBA \<or>
      (0xC0 \<le> n \<and> n \<noteq> 0xD7 \<and> n \<noteq> 0xF7))"

text \<open>\<^verbatim>\<open>str.lower()\<close>: every upper-case letter becomes the code point 32 above it.\<close>

definition py_lower :: "string \<Rightarrow> string" where
  "py_lower s = map (\<lambda>c. if is_upper c then char_of (of_char c + (32::nat)) else c) s"

text \<open>\<^verbatim>\<open>str.isalpha()\<close>: non-empty and all letters.\<close>

definition py_isalpha :: "string \<Rightarrow> bool" where
  "py_isalpha w \<longleftrightarrow> w \<noteq> [] \<and> list_all is_alpha_char w"

text \<open>\<^verbatim>\<open>str.split("\n")\<close>: the pieces between newlines, empty ones included.\<close>

fun py_split_nl :: "string \<Rightarrow> string list" where
  "py_split_nl [] = [[]]"
| "py_split_nl (c # cs) =
     (let ps = py_split_nl cs in if c = newline then [] # ps else (c # hd ps) # tl ps)"

definition tokenize :: "(string \<Rightarrow> string list) \<Rightarrow> string \<Rightarrow> string list" where
  "tokenize word_tokenize document =
     (let document = py_lower document;
          tokenizedDocument = word_tokenize document
      in [word \<leftarrow> tokenizedDocument. py_isalpha word])"

text \<open>\<^verbatim>\<open>for sentence in ...: tokens = tokenize(sentence); if tokens: sentences[sentence] = tokens\<close>\<close>

fun add_sentences ::
  "(string \<Rightarrow> string list) \<Rightarrow> (string, document) pydict \<Rightarrow> string list \<Rightarrow> (string, document) pydict" where
  "add_sentences tok sentences [] = sentences"
| "add_sentences tok sentences (sentence # rest) =
     (let tokens = tok sentence in
      if tokens \<noteq> [] then add_sentences tok (AList.update sentence tokens sentences) rest
      else add_sentences tok sentences rest)"

text \<open>
  \<^verbatim>\<open>for filename in filenames: for passage in files[filename].split("\n"):\<close>
  \<^verbatim>\<open>for sentence in nltk.sent_tokenize(passage): ...\<close>; the two inner loops visit the
  sentences of the passages in order, which is \<open>concat (map sent_tokenize ...)\<close>.
\<close>

fun collect_sentences ::
  "(string \<Rightarrow> string list) \<Rightarrow> (string \<Rightarrow> string list) \<Rightarrow> (string, string) pydict \<Rightarrow>
   (string, document) pydict \<Rightarrow> string list \<Rightarrow> py_error + (string, document) pydict" where
  "collect_sentences tok sent_tokenize files sentences [] = Inr sentences"
| "collect_sentences tok sent_tokenize files sentences (filename # filenames) =
     (case dict_get files filename of
        Inl e \<Rightarrow> Inl e
      | Inr text \<Rightarrow>
          collect_sentences tok sent_tokenize files
            (add_sentences tok sentences (concat (map sent_tokenize (py_split_nl text)))) filenames)"

text \<open>
  \<^verbatim>\<open>main\<close> after the argument check: the file words (a dictionary comprehension over
  \<^verbatim>\<open>files\<close>, which keeps its order), their idfs, the query, the top files, their
  sentences, the sentence idfs and the top sentences.
\<close>

definition main_answer ::
  "string set_iter \<Rightarrow> (string \<Rightarrow> string list) \<Rightarrow> (string \<Rightarrow> string list) \<Rightarrow>
   (string, string) pydict \<Rightarrow> string \<Rightarrow> py_error + string list" where
  "main_answer it word_tokenize sent_tokenize files query_line =
     (let tok = tokenize word_tokenize;
          file_words = map (\<lambda>(filename, text). (filename, tok text)) files
      in case compute_idfs it file_words of
           Inl e \<Rightarrow> Inl e
         | Inr file_idfs \<Rightarrow>
             (let query = set (tok query_line) in
              case top_files it query file_words file_idfs FILE_MATCHES of
                Inl e \<Rightarrow> Inl e
              | Inr filenames \<Rightarrow>
                  (case collect_sentences tok sent_tokenize files [] filenames of
                     Inl e \<Rightarrow> Inl e
                   | Inr sentences \<Rightarrow>
                       (case compute_idfs it sentences of
                          Inl e \<Rightarrow> Inl e
                        | Inr idfs \<Rightarrow> top_sentences it query sentences idfs SENTENCE_MATCHES))))"

lemmas questions_eval = main_answer_def tokenize_def py_lower_def py_isalpha_def is_upper_def
  is_alpha_char_def FILE_MATCHES_def SENTENCE_MATCHES_def idf_eval ranking_eval

section \<open>Splitting into passages\<close>

lemma py_split_nl_not_Nil [simp]: "py_split_nl s \<noteq> []"
  by (induction s) (simp_all add: Let_def)

section \<open>Tokens\<close>

lemma py_lower_not_upper: "c \<in> set (py_lower s) \<Longrightarrow> \<not> is_upper c"
proof -
  assume "c \<in> set (py_lower s)"
  then obtain d where d: "d \<in> set s" "c = (if is_upper d then char_of (of_char d + (32::nat)) else d)"
    by (auto simp: py_lower_def)
  show "\<not> is_upper c"
  proof (cases "is_upper d")
    case True
    then have "(0x41::nat) \<le> of_char d" "of_char d \<le> (0xDE::nat)"
      by (auto simp: is_upper_def Let_def)
    then have "of_char c = of_char d + (32::nat)" using True d(2) by (simp add: of_char_of)
    with True show ?thesis by (auto simp: is_upper_def Let_def)
  next
    case False
    with d show ?thesis by simp
  qed
qed

lemma py_lower_id: "\<forall>c\<in>set s. \<not> is_upper c \<Longrightarrow> py_lower s = s"
  by (induction s) (simp_all add: py_lower_def)

section \<open>Collecting the sentences of the top files\<close>

lemma map_of_add_sentences:
  "map_of (add_sentences tok acc ss) s =
     (if s \<in> set ss \<and> tok s \<noteq> [] then Some (tok s) else map_of acc s)"
  by (induction ss arbitrary: acc) (auto simp: Let_def update_conv)

lemma distinct_add_sentences:
  "distinct (map fst acc) \<Longrightarrow> distinct (map fst (add_sentences tok acc ss))"
  by (induction ss arbitrary: acc) (auto simp: Let_def distinct_update)

abbreviation sentences_of :: "(string \<Rightarrow> string list) \<Rightarrow> string \<Rightarrow> string list" where
  "sentences_of sent_tokenize text \<equiv> concat (map sent_tokenize (py_split_nl text))"

lemma collect_sentences_ok:
  assumes "set fns \<subseteq> fst ` set files"
  shows "\<exists>d. collect_sentences tok st files acc fns = Inr d \<and>
           (distinct (map fst acc) \<longrightarrow> distinct (map fst d)) \<and>
           (\<forall>s ws. map_of d s = Some ws \<longrightarrow>
              map_of acc s = Some ws \<or>
              (ws = tok s \<and> (\<exists>f\<in>set fns. \<exists>text. map_of files f = Some text \<and> s \<in> set (sentences_of st text))))"
  using assms
proof (induction fns arbitrary: acc)
  case Nil
  then show ?case by simp
next
  case (Cons f fns)
  then have "f \<in> fst ` set files" by simp
  then obtain tx where tx: "map_of files f = Some tx"
    by (cases "map_of files f") (simp_all add: map_of_eq_None_iff)
  define acc' where "acc' = add_sentences tok acc (sentences_of st tx)"
  have fns: "set fns \<subseteq> fst ` set files" using Cons.prems by simp
  from Cons.IH [of acc', OF fns] obtain d where d: "collect_sentences tok st files acc' fns = Inr d"
    "distinct (map fst acc') \<longrightarrow> distinct (map fst d)"
    "\<forall>s ws. map_of d s = Some ws \<longrightarrow> map_of acc' s = Some ws \<or>
       (ws = tok s \<and> (\<exists>f\<in>set fns. \<exists>text. map_of files f = Some text \<and> s \<in> set (sentences_of st text)))"
    by auto
  have "collect_sentences tok st files acc (f # fns) = Inr d" using tx d(1) by (simp add: acc'_def)
  moreover have "distinct (map fst acc) \<longrightarrow> distinct (map fst d)"
    using d(2) distinct_add_sentences by (auto simp: acc'_def)
  moreover have "\<forall>s ws. map_of d s = Some ws \<longrightarrow> map_of acc s = Some ws \<or>
       (ws = tok s \<and> (\<exists>f\<in>set (f # fns). \<exists>text. map_of files f = Some text \<and> s \<in> set (sentences_of st text)))"
  proof (intro allI impI)
    fix s ws assume "map_of d s = Some ws"
    with d(3) have "map_of acc' s = Some ws \<or>
       (ws = tok s \<and> (\<exists>f\<in>set fns. \<exists>text. map_of files f = Some text \<and> s \<in> set (sentences_of st text)))"
      by blast
    then show "map_of acc s = Some ws \<or>
       (ws = tok s \<and> (\<exists>f\<in>set (f # fns). \<exists>text. map_of files f = Some text \<and> s \<in> set (sentences_of st text)))"
    proof
      assume a: "map_of acc' s = Some ws"
      show ?thesis
      proof (cases "s \<in> set (sentences_of st tx) \<and> tok s \<noteq> []")
        case True
        with a tx show ?thesis by (auto simp: acc'_def map_of_add_sentences)
      next
        case False
        have "map_of acc' s = map_of acc s"
          unfolding acc'_def map_of_add_sentences by (rule if_not_P [OF False])
        with a have "map_of acc s = Some ws" by simp
        then show ?thesis ..
      qed
    next
      assume "ws = tok s \<and> (\<exists>f\<in>set fns. \<exists>text. map_of files f = Some text \<and> s \<in> set (sentences_of st text))"
      then show ?thesis by auto
    qed
  qed
  ultimately show ?case by blast
qed

section \<open>The pipeline\<close>

lemma idf_score_nonzero:
  assumes "idf_score query idfs ws \<noteq> 0"
  shows "\<exists>w\<in>query. w \<in> set ws"
proof -
  from sum.not_neutral_contains_not_neutral [OF assms [unfolded idf_score_def]] obtain w
    where "w \<in> query" "(if w \<in> set ws then idf_of idfs w else 0) \<noteq> 0" by blast
  then show ?thesis by (auto split: if_splits)
qed

lemma map_fst_file_words: "map fst (map (\<lambda>(f, t). (f, g t)) files) = map fst files"
  by (induction files) auto

lemma map_of_file_words:
  "map_of (map (\<lambda>(f, t). (f, g t)) files) f = map_option g (map_of files f)"
  by (induction files) auto

lemma main_answer_run:
  assumes "valid_set_iter it" "distinct (map fst files)"
  obtains out where "main_answer it word_tokenize sent_tokenize files query_line = Inr out"
    "length out \<le> 1"
    "\<forall>s\<in>set out. \<exists>f text. map_of files f = Some text \<and> s \<in> set (sentences_of sent_tokenize text) \<and>
        (\<exists>w\<in>set (tokenize word_tokenize query_line). w \<in> set (tokenize word_tokenize s)) \<and>
        matches (set (tokenize word_tokenize query_line)) (tokenize word_tokenize text)"
proof -
  define tok where "tok = tokenize word_tokenize"
  define fw where "fw = map (\<lambda>(filename, text). (filename, tok text)) files"
  define q where "q = set (tok query_line)"
  have dfw: "distinct (map fst fw)" unfolding fw_def map_fst_file_words by (rule assms(2))
  obtain fidfs where fidfs: "compute_idfs it fw = Inr fidfs"
    using compute_idfs_ok [OF assms(1), of fw] by blast
  have fq: "finite q" by (simp add: q_def)
  have cov: "idfs_cover q fw fidfs" using compute_idfs_cover [OF assms(1) fidfs] by blast
  obtain d where d: "tfidf_query fidfs fw [] (it q) = Inr d" "distinct (map fst d)"
    "map_of d = tfidf_spec q fidfs fw"
    using tfidf_query_spec [OF assms(1) fq dfw cov] by blast
  define names where "names = top_keys d FILE_MATCHES"
  have tf: "top_files it q fw fidfs FILE_MATCHES = Inr names" using d(1) by (simp add: top_files_def names_def)
  have names_match: "set names \<subseteq> dom (tfidf_spec q fidfs fw)"
    using top_keys_subset [of d FILE_MATCHES] dom_of_map_of [OF d(3)] by (simp add: names_def)
  have "dom (tfidf_spec q fidfs fw) \<subseteq> fst ` set files"
    unfolding dom_tfidf_spec by (auto simp: fw_def map_of_file_words dest: map_of_Some_in_keys)
  with names_match have "set names \<subseteq> fst ` set files" by blast
  from collect_sentences_ok [OF this, of tok sent_tokenize "[]"] obtain sents
    where sents: "collect_sentences tok sent_tokenize files [] names = Inr sents" "distinct (map fst sents)"
      "\<forall>s ws. map_of sents s = Some ws \<longrightarrow> ws = tok s \<and>
         (\<exists>f\<in>set names. \<exists>text. map_of files f = Some text \<and> s \<in> set (sentences_of sent_tokenize text))"
    by auto
  obtain idfs where idfs: "compute_idfs it sents = Inr idfs"
    using compute_idfs_ok [OF assms(1), of sents] by blast
  have cov2: "idfs_cover q sents idfs" using compute_idfs_cover [OF assms(1) idfs] by blast
  obtain d2 where d2: "score_sentences (it q) idfs sents None [] = Inr d2" "distinct (map fst d2)"
    "map_of d2 = sentence_spec q (last (it q)) idfs sents"
    using score_sentences_spec [OF assms(1) fq sents(2) cov2] by blast
  define out where "out = top_keys d2 SENTENCE_MATCHES"
  have run: "main_answer it word_tokenize sent_tokenize files query_line = Inr out"
    using fidfs tf sents(1) idfs d2(1)
    by (simp add: main_answer_def tok_def [symmetric] fw_def [symmetric] q_def [symmetric] Let_def
        top_sentences_def out_def)
  have len: "length out \<le> 1"
    using top_keys_length [of SENTENCE_MATCHES d2] by (simp add: out_def SENTENCE_MATCHES_def)
  have "\<forall>s\<in>set out. \<exists>f text. map_of files f = Some text \<and> s \<in> set (sentences_of sent_tokenize text) \<and>
        (\<exists>w\<in>q. w \<in> set (tok s)) \<and> matches q (tok text)"
  proof
    fix s assume "s \<in> set out"
    then have "s \<in> dom (sentence_spec q (last (it q)) idfs sents)"
      using top_keys_subset [of d2 SENTENCE_MATCHES] dom_of_map_of [OF d2(3)] by (auto simp: out_def)
    then obtain ws where ws: "map_of sents s = Some ws" "idf_score q idfs ws \<noteq> 0"
      unfolding dom_sentence_spec by blast
    from sents(3) ws(1) obtain f tx where f: "f \<in> set names" "map_of files f = Some tx"
      "s \<in> set (sentences_of sent_tokenize tx)" and wst: "ws = tok s" by blast
    from f(1) names_match obtain c where "map_of fw f = Some c" "matches q c"
      unfolding dom_tfidf_spec by blast
    with f(2) have "matches q (tok tx)" by (simp add: fw_def map_of_file_words)
    moreover from idf_score_nonzero [OF ws(2)] wst have "\<exists>w\<in>q. w \<in> set (tok s)" by simp
    ultimately show "\<exists>f text. map_of files f = Some text \<and> s \<in> set (sentences_of sent_tokenize text) \<and>
        (\<exists>w\<in>q. w \<in> set (tok s)) \<and> matches q (tok text)" using f(2,3) by blast
  qed
  with run len show ?thesis by (intro that) (simp_all add: q_def tok_def)
qed

section \<open>Properties of the driver\<close>

text \<open>
  For any corpus (a dictionary, so with distinct file names), any query line, any
  tokenisers and every iteration order of Python sets, the pipeline of \<^verbatim>\<open>main\<close> raises
  no exception (no \<open>KeyError\<close>, \<open>ZeroDivisionError\<close> or \<open>UnboundLocalError\<close>)
  and prints at most \<^verbatim>\<open>SENTENCE_MATCHES = 1\<close> sentence.
\<close>

theorem main_answer_no_error:
  assumes "valid_set_iter it" "distinct (map fst files)"
  shows "\<exists>out. main_answer it word_tokenize sent_tokenize files query_line = Inr out \<and> length out \<le> 1"
proof -
  obtain out where "main_answer it word_tokenize sent_tokenize files query_line = Inr out" "length out \<le> 1"
    using main_answer_run [OF assms] by blast
  then show ?thesis by blast
qed

theorem main_answer_no_error_witness:
  "valid_set_iter sorted_list_of_set \<and> distinct (map fst [(''f1'', ''cat'' @ [newline] @ ''dog'')]) \<and>
   main_answer sorted_list_of_set py_split_nl (\<lambda>p. [p]) [(''f1'', ''cat'' @ [newline] @ ''dog'')] ''cat'' =
     Inr [''cat'']"
proof -
  have "main_answer sorted_list_of_set py_split_nl (\<lambda>p. [p]) [(''f1'', ''cat'' @ [newline] @ ''dog'')] ''cat'' =
      Inr [''cat'']"
    by (simp add: questions_eval)
  with main_answer_no_error [OF valid_sorted_list_of_set, of "[(''f1'', ''cat'' @ [newline] @ ''dog'')]"
      py_split_nl "\<lambda>p. [p]" "''cat''"]
  show ?thesis by (simp add: valid_sorted_list_of_set)
qed

text \<open>
  C34: every sentence \<^verbatim>\<open>main\<close> prints is a sentence of a file whose words contain a
  query word, and itself contains a query word.
\<close>

theorem main_answer_sentences:
  assumes "valid_set_iter it" "distinct (map fst files)"
    "main_answer it word_tokenize sent_tokenize files query_line = Inr out" "s \<in> set out"
  shows "\<exists>f text. map_of files f = Some text \<and> s \<in> set (concat (map sent_tokenize (py_split_nl text))) \<and>
           (\<exists>w\<in>set (tokenize word_tokenize query_line). w \<in> set (tokenize word_tokenize s)) \<and>
           matches (set (tokenize word_tokenize query_line)) (tokenize word_tokenize text)"
proof -
  obtain out' where r: "main_answer it word_tokenize sent_tokenize files query_line = Inr out'"
    "length out' \<le> 1"
    "\<forall>s\<in>set out'. \<exists>f text. map_of files f = Some text \<and> s \<in> set (sentences_of sent_tokenize text) \<and>
        (\<exists>w\<in>set (tokenize word_tokenize query_line). w \<in> set (tokenize word_tokenize s)) \<and>
        matches (set (tokenize word_tokenize query_line)) (tokenize word_tokenize text)"
    by (rule main_answer_run [OF assms(1,2)])
  from r(1) assms(3) have "out' = out" by simp
  with assms(4) have "s \<in> set out'" by simp
  from bspec [OF r(3) this] show ?thesis .
qed

theorem main_answer_sentences_witness:
  "valid_set_iter sorted_list_of_set \<and> distinct (map fst [(''f1'', ''cat'' @ [newline] @ ''dog'')]) \<and>
   main_answer sorted_list_of_set py_split_nl (\<lambda>p. [p]) [(''f1'', ''cat'' @ [newline] @ ''dog'')] ''cat'' =
     Inr [''cat''] \<and> ''cat'' \<in> set [''cat''] \<and>
   (\<exists>f text. map_of [(''f1'', ''cat'' @ [newline] @ ''dog'')] f = Some text \<and>
      ''cat'' \<in> set (concat (map (\<lambda>p. [p]) (py_split_nl text))) \<and>
      (\<exists>w\<in>set (tokenize py_split_nl ''cat''). w \<in> set (tokenize py_split_nl ''cat'')) \<and>
      matches (set (tokenize py_split_nl ''cat'')) (tokenize py_split_nl text))"
proof -
  have run: "main_answer sorted_list_of_set py_split_nl (\<lambda>p. [p]) [(''f1'', ''cat'' @ [newline] @ ''dog'')] ''cat'' =
      Inr [''cat'']"
    by (simp add: questions_eval)
  have concl: "\<exists>f text. map_of [(''f1'', ''cat'' @ [newline] @ ''dog'')] f = Some text \<and>
      ''cat'' \<in> set (concat (map (\<lambda>p. [p]) (py_split_nl text))) \<and>
      (\<exists>w\<in>set (tokenize py_split_nl ''cat''). w \<in> set (tokenize py_split_nl ''cat'')) \<and>
      matches (set (tokenize py_split_nl ''cat'')) (tokenize py_split_nl text)"
    by (rule main_answer_sentences [OF valid_sorted_list_of_set _ run]) simp_all
  have "distinct (map fst [(''f1'', ''cat'' @ [newline] @ ''dog'')])" by simp
  then show ?thesis by (intro conjI valid_sorted_list_of_set run concl) simp_all
qed

text \<open>
  C35: when the word tokeniser only returns pieces of its input (as NLTK's does on
  letters), every token of \<^verbatim>\<open>tokenize\<close> passes \<^verbatim>\<open>str.isalpha\<close> and is left
  unchanged by \<^verbatim>\<open>str.lower\<close>: lower-cased words of letters, Latin-1 letters included.
\<close>

theorem tokenize_lower_alpha:
  assumes "\<forall>s. \<forall>t\<in>set (word_tokenize s). set t \<subseteq> set s"
    and "t \<in> set (tokenize word_tokenize document)"
  shows "py_isalpha t \<and> py_lower t = t"
proof -
  from assms(2) have t: "t \<in> set (word_tokenize (py_lower document))" "py_isalpha t"
    by (simp_all add: tokenize_def)
  with assms(1) have "set t \<subseteq> set (py_lower document)" by blast
  then have "\<forall>c\<in>set t. \<not> is_upper c" using py_lower_not_upper by blast
  with t(2) show ?thesis by (simp add: py_lower_id)
qed

theorem tokenize_lower_alpha_witness:
  "[CHR 0xFC, CHR ''b''] \<in> set (tokenize (\<lambda>s. [s]) [CHR 0xDC, CHR ''b'']) \<and>
   py_isalpha [CHR 0xFC, CHR ''b''] \<and> py_lower [CHR 0xFC, CHR ''b''] = [CHR 0xFC, CHR ''b'']"
proof -
  have tok: "tokenize (\<lambda>s. [s]) [CHR 0xDC, CHR ''b''] = [[CHR 0xFC, CHR ''b'']]" by code_simp
  have pieces: "\<forall>s. \<forall>t\<in>set ((\<lambda>s. [s]) s). set t \<subseteq> set s" by simp
  from tokenize_lower_alpha [OF pieces, of "[CHR 0xFC, CHR ''b'']" "[CHR 0xDC, CHR ''b'']"] tok
  show ?thesis by simp
qed

end
