(* ===== verification/Cli.thy ===== *)
theory Cli
  imports Questions
begin

text \<open>
  The command-line layer of \<^verbatim>\<open>questions.py\<close>: the argument check of \<^verbatim>\<open>main\<close>
  and \<^verbatim>\<open>load_files\<close>. The file system is a map from a directory path to its listing in
  the order \<^verbatim>\<open>os.listdir\<close> returns it (\<open>None\<close>: no such directory); an entry is a
  text file with its decoded contents, a file that is not valid UTF-8, or a subdirectory, which
  \<^verbatim>\<open>open\<close> refuses. \<open>questions_main\<close> is the whole of \<^verbatim>\<open>main\<close>: the check of
  \<^verbatim>\<open>sys.argv\<close>, \<^verbatim>\<open>load_files(sys.argv[1])\<close>, then the pipeline \<open>main_answer\<close>;
  the query line read by \<^verbatim>\<open>input\<close> is an argument and the printed sentences are the
  result.
\<close>

datatype entry = TextFile string | BinaryFile | Subdirectory

type_synonym filesystem = "string \<Rightarrow> (string \<times> entry) list option"

definition usage :: string where
  "usage = ''Usage: python questions.py corpus''"

text \<open>The loop of \<^verbatim>\<open>load_files\<close>: \<^verbatim>\<open>dictionary[file] = ofile.read()\<close> per entry.\<close>

fun load_loop ::
  "(string \<times> entry) list \<Rightarrow> (string, string) pydict \<Rightarrow> py_error + (string, string) pydict" where
  "load_loop [] dictionary = Inr dictionary"
| "load_loop ((file, e) # es) dictionary =
     (case e of
        TextFile content \<Rightarrow> load_loop es (AList.update file content dictionary)
      | BinaryFile \<Rightarrow> Inl UnicodeDecodeError
      | Subdirectory \<Rightarrow> Inl IsADirectoryError)"

definition load_files :: "filesystem \<Rightarrow> string \<Rightarrow> py_error + (string, string) pydict" where
  "load_files fs directory =
     (let dictionary = [] in
      case fs directory of
        None \<Rightarrow> Inl FileNotFoundError
      | Some listing \<Rightarrow> load_loop listing dictionary)"

definition questions_main ::
  "string set_iter \<Rightarrow> (string \<Rightarrow> string list) \<Rightarrow> (string \<Rightarrow> string list) \<Rightarrow> filesystem \<Rightarrow>
   string list \<Rightarrow> string \<Rightarrow> py_error + string list" where
  "questions_main it word_tokenize sent_tokenize fs argv query_line =
     (if length argv \<noteq> 2 then Inl (SystemExit usage)
      else (case load_files fs (argv ! 1) of
              Inl e \<Rightarrow> Inl e
            | Inr files \<Rightarrow> main_answer it word_tokenize sent_tokenize files query_line))"

text \<open>
  The exception \<^verbatim>\<open>main\<close> should end with, if any: the usage message for a wrong
  number of arguments, then a missing directory, then the first entry of the listing that
  cannot be read as text.
\<close>

definition entry_error :: "entry \<Rightarrow> py_error option" where
  "entry_error e = (case e of TextFile _ \<Rightarrow> None | BinaryFile \<Rightarrow> Some UnicodeDecodeError
                     | Subdirectory \<Rightarrow> Some IsADirectoryError)"

definition entry_text :: "entry \<Rightarrow> string" where
  "entry_text e = (case e of TextFile c \<Rightarrow> c | _ \<Rightarrow> [])"

definition listing_error :: "(string \<times> entry) list \<Rightarrow> py_error option" where
  "listing_error listing =
     (case find (\<lambda>(f, e). entry_error e \<noteq> None) listing of
        None \<Rightarrow> None
      | Some (f, e) \<Rightarrow> entry_error e)"

definition cli_error :: "filesystem \<Rightarrow> string list \<Rightarrow> py_error option" where
  "cli_error fs argv =
     (if length argv \<noteq> 2 then Some (SystemExit usage)
      else case fs (argv ! 1) of None \<Rightarrow> Some FileNotFoundError | Some listing \<Rightarrow> listing_error listing)"

section \<open>Loading the corpus\<close>

lemma load_loop_error:
  "load_loop listing d = Inl e \<longleftrightarrow> listing_error listing = Some e"
  by (induction listing d rule: load_loop.induct)
    (auto simp: listing_error_def entry_error_def split: entry.split option.split)

lemma load_loop_distinct:
  "load_loop listing d = Inr d' \<Longrightarrow> distinct (map fst d) \<Longrightarrow> distinct (map fst d')"
  by (induction listing d rule: load_loop.induct)
    (auto simp: distinct_update split: entry.splits)

lemma load_loop_Inr: "listing_error listing = None \<Longrightarrow> \<exists>d'. load_loop listing d = Inr d'"
  using load_loop_error [of listing d] by (cases "load_loop listing d") auto

lemma load_files_ok:
  assumes "fs directory = Some listing" "listing_error listing = None"
  obtains files where "load_files fs directory = Inr files" "distinct (map fst files)"
proof -
  from load_loop_Inr [OF assms(2)] obtain files where l: "load_loop listing [] = Inr files" ..
  then have "distinct (map fst files)" by (rule load_loop_distinct) simp
  with l assms(1) show ?thesis by (intro that) (simp_all add: load_files_def)
qed

lemma load_loop_texts:
  assumes "listing_error listing = None" "distinct (map fst listing)"
    "set (map fst listing) \<inter> set (map fst d) = {}"
  shows "load_loop listing d = Inr (d @ map (\<lambda>(f, e). (f, entry_text e)) listing)"
  using assms
proof (induction listing d rule: load_loop.induct)
  case (2 fname e es d)
  from "2.prems"(1) obtain c where e: "e = TextFile c"
    by (cases e) (auto simp: listing_error_def entry_error_def)
  from "2.prems" e have "listing_error es = None"
    by (simp add: listing_error_def entry_error_def)
  moreover from "2.prems" have "distinct (map fst es)" by simp
  moreover from "2.prems" have "fname \<notin> set (map fst d)" by auto
  then have upd: "AList.update fname c d = d @ [(fname, c)]"
    by (induction d) auto
  moreover from "2.prems" have "set (map fst es) \<inter> set (map fst (d @ [(fname, c)])) = {}" by auto
  ultimately show ?case using "2.IH" [OF e] e by (simp add: entry_text_def)
qed simp

text \<open>
  On a directory whose entries are all readable text, \<^verbatim>\<open>load_files\<close> returns every
  entry with its contents, in listing order (file names in a directory are distinct).
\<close>

lemma load_files_texts:
  assumes "fs directory = Some listing" "listing_error listing = None" "distinct (map fst listing)"
  shows "load_files fs directory = Inr (map (\<lambda>(f, e). (f, entry_text e)) listing)"
  using load_loop_texts [of listing "[]"] assms by (simp add: load_files_def)

lemma load_loop_from:
  "load_loop listing d = Inr d' \<Longrightarrow> map_of d' f = Some t \<Longrightarrow>
   map_of d f = Some t \<or> (\<exists>e. (f, e) \<in> set listing \<and> t = entry_text e)"
proof (induction listing d rule: load_loop.induct)
  case (2 fname e es d)
  show ?case
  proof (cases e)
    case (TextFile c)
    with "2.prems" have "load_loop es (AList.update fname c d) = Inr d'" by simp
    from "2.IH" [OF TextFile this "2.prems"(2)] TextFile show ?thesis
      by (auto simp: update_conv' entry_text_def split: if_splits)
  qed (use "2.prems" in simp_all)
qed simp

section \<open>The command line\<close>

text \<open>
  C32: \<^verbatim>\<open>main\<close> ends with an exception exactly when \<open>cli_error\<close> predicts one, and
  then with that one: \<^verbatim>\<open>SystemExit\<close> with the usage message unless there is exactly one
  argument, \<^verbatim>\<open>FileNotFoundError\<close> for a missing corpus directory, and otherwise the error
  of the first entry in listing order that is a subdirectory or not UTF-8. In every other
  case, for any query line, tokenisers and set iteration order, it prints at most
  \<^verbatim>\<open>SENTENCE_MATCHES = 1\<close> sentence and raises nothing.
\<close>

theorem questions_main_outcome:
  assumes "valid_set_iter it"
  shows "(questions_main it word_tokenize sent_tokenize fs argv query_line = Inl e \<longleftrightarrow>
            cli_error fs argv = Some e) \<and>
         (cli_error fs argv = None \<longrightarrow>
            (\<exists>out. questions_main it word_tokenize sent_tokenize fs argv query_line = Inr out \<and>
                   length out \<le> 1))"
proof (cases "length argv = 2")
  case False
  then show ?thesis by (auto simp: questions_main_def cli_error_def)
next
  case True
  show ?thesis
  proof (cases "fs (argv ! 1)")
    case None
    with True show ?thesis by (auto simp: questions_main_def cli_error_def load_files_def)
  next
    case (Some listing)
    show ?thesis
    proof (cases "listing_error listing")
      case (Some e')
      then have "load_files fs (argv ! 1) = Inl e'"
        using \<open>fs (argv ! 1) = Some listing\<close> load_loop_error [of listing "[]" e']
        by (simp add: load_files_def)
      with True Some \<open>fs (argv ! 1) = Some listing\<close> show ?thesis
        by (auto simp: questions_main_def cli_error_def)
    next
      case None
      obtain files where l: "load_files fs (argv ! 1) = Inr files" "distinct (map fst files)"
        by (rule load_files_ok [of fs "argv ! 1" listing, OF \<open>fs (argv ! 1) = Some listing\<close> None])
      obtain out where o: "main_answer it word_tokenize sent_tokenize files query_line = Inr out"
        "length out \<le> 1"
        using main_answer_no_error [OF assms l(2)] by blast
      with True l(1) None \<open>fs (argv ! 1) = Some listing\<close> show ?thesis
        by (simp add: questions_main_def cli_error_def)
    qed
  qed
qed

theorem questions_main_outcome_witness:
  "valid_set_iter sorted_list_of_set \<and>
   questions_main sorted_list_of_set py_split_nl (\<lambda>p. [p])
     (\<lambda>d. if d = ''corpus'' then Some [(''a.txt'', TextFile ''cat''), (''sub'', Subdirectory)] else None)
     [''questions.py'', ''corpus''] ''cat'' = Inl IsADirectoryError"
proof -
  have "cli_error
      (\<lambda>d. if d = ''corpus'' then Some [(''a.txt'', TextFile ''cat''), (''sub'', Subdirectory)] else None)
      [''questions.py'', ''corpus''] = Some IsADirectoryError"
    by (simp add: cli_error_def listing_error_def entry_error_def)
  with questions_main_outcome [OF valid_sorted_list_of_set, of py_split_nl "\<lambda>p. [p]"
      "\<lambda>d. if d = ''corpus'' then Some [(''a.txt'', TextFile ''cat''), (''sub'', Subdirectory)] else None"
      "[''questions.py'', ''corpus'']" "''cat''" IsADirectoryError]
  show ?thesis using valid_sorted_list_of_set by simp
qed

text \<open>
  C33: boundary inputs. When no file of the corpus directory contains a word of the query
  (in particular when the directory is empty), \<^verbatim>\<open>main\<close> raises nothing and prints
  nothing, for any tokenisers and set iteration order.
\<close>

theorem questions_main_no_match:
  assumes "valid_set_iter it" "length argv = 2" "fs (argv ! 1) = Some listing"
    "listing_error listing = None"
    "\<forall>(f, e)\<in>set listing. \<not> matches (set (tokenize word_tokenize query_line))
                                   (tokenize word_tokenize (entry_text e))"
  shows "questions_main it word_tokenize sent_tokenize fs argv query_line = Inr []"
proof -
  obtain files where l: "load_files fs (argv ! 1) = Inr files" "distinct (map fst files)"
    by (rule load_files_ok [of fs "argv ! 1" listing, OF assms(3,4)])
  from l(1) assms(3) have ll: "load_loop listing [] = Inr files" by (simp add: load_files_def)
  obtain out where o: "main_answer it word_tokenize sent_tokenize files query_line = Inr out"
    "\<forall>s\<in>set out. \<exists>f text. map_of files f = Some text \<and>
        s \<in> set (sentences_of sent_tokenize text) \<and>
        (\<exists>w\<in>set (tokenize word_tokenize query_line). w \<in> set (tokenize word_tokenize s)) \<and>
        matches (set (tokenize word_tokenize query_line)) (tokenize word_tokenize text)"
    by (rule main_answer_run [OF assms(1) l(2)])
  have "out = []"
  proof (rule ccontr)
    assume "out \<noteq> []"
    then obtain s where "s \<in> set out" by (cases out) auto
    with o(2) obtain f tx where f: "map_of files f = Some tx"
      and m: "matches (set (tokenize word_tokenize query_line)) (tokenize word_tokenize tx)"
      by blast
    from load_loop_from [OF ll f] obtain e where "(f, e) \<in> set listing" "tx = entry_text e"
      by auto
    with assms(5) m show False by auto
  qed
  with o(1) l(1) assms(2) show ?thesis by (simp add: questions_main_def)
qed

theorem questions_main_no_match_witness:
  "valid_set_iter sorted_list_of_set \<and>
   questions_main sorted_list_of_set py_split_nl (\<lambda>p. [p]) (\<lambda>d. Some []) [''questions.py'', ''corpus'']
     ''cat'' = Inr []"
  using questions_main_no_match [OF valid_sorted_list_of_set, of "[''questions.py'', ''corpus'']"
      "\<lambda>d. Some []" "[]" py_split_nl "''cat''" "\<lambda>p. [p]"] valid_sorted_list_of_set
  by (simp add: listing_error_def)

end
