(* ===== verification/Spec2Isabelle.thy ===== *)
theory Spec2Isabelle
  imports Depth SelfPlay Cli
begin

text \<open>
  \<^bold>\<open>A verification library for CS50AI-assignments: the tic-tac-toe engine and the
  question-answering ranker.\<close>

  \<^bold>\<open>The program.\<close> Two unrelated tools live under \<^verbatim>\<open>src/\<close>.
  \<^verbatim>\<open>src/search/tictactoe/tictactoe.py\<close> is a pure minimax engine for 3x3 tic-tac-toe:
  the board model (\<^verbatim>\<open>X\<close>, \<^verbatim>\<open>O\<close>, \<^verbatim>\<open>EMPTY = None\<close>, \<^verbatim>\<open>initial_state\<close>), the
  rules engine (\<^verbatim>\<open>player\<close>, \<^verbatim>\<open>actions\<close>, \<^verbatim>\<open>result\<close>, \<^verbatim>\<open>winner\<close>,
  \<^verbatim>\<open>terminal\<close>, \<^verbatim>\<open>utility\<close>) and the search \<^verbatim>\<open>minimax\<close> with its mutually recursive
  \<^verbatim>\<open>max_value\<close>/\<^verbatim>\<open>min_value\<close>, which use the board only through the rules engine.
  \<^verbatim>\<open>src/language/questions/questions.py\<close> answers a question from a corpus: it tokenises
  the files (\<^verbatim>\<open>tokenize\<close>), computes idfs (\<^verbatim>\<open>compute_idfs\<close>), ranks the files by tf-idf
  (\<^verbatim>\<open>top_files\<close>), splits the best file into sentences, computes their idfs and ranks them
  (\<^verbatim>\<open>top_sentences\<close>); \<^verbatim>\<open>main\<close> composes these. No state is mutated across calls in
  either tool: each function is modelled as a function on values.

  \<^bold>\<open>The theories.\<close>
  \<^item> \<open>Prelude\<close>: the Python exceptions as \<open>py_error\<close> (\<open>IndexError\<close>, \<open>Exception\<close>,
    \<open>KeyError\<close>, \<open>ZeroDivisionError\<close>, \<open>UnboundLocalError\<close>); list indexing \<open>py_nth\<close>,
    \<open>py_get\<close>, \<open>py_set\<close> with negative indices; shared counting and extremum lemmas.
  \<^item> \<open>Board\<close>, \<open>Rules\<close>: the board and one definition per rules-engine function of
    \<^verbatim>\<open>tictactoe.py\<close> (lines 9-120), statement by statement, with the spec's eight lines
    \<open>winning_lines\<close> as the reference for \<open>winner\<close>.
  \<^item> \<open>Reach\<close>: \<open>reachable\<close>, the boards of legal play, an inductive step relation, with the
    invariants \<open>turn_inv\<close> and \<open>line_inv\<close> proved by rule induction; \<open>play b n b'\<close>,
    the driver's loop (apply \<^verbatim>\<open>result\<close> while the board is not terminal), counted in
    moves and modelled from the spec's contract with its out-of-tree driver.
  \<^item> \<open>Search\<close>: \<open>max_value\<close>, \<open>max_loop\<close>, \<open>min_value\<close>, \<open>min_loop\<close>, \<open>minimax\<close>
    (lines 123-162), parametrised by the iteration order \<open>it\<close> of the Python set
    \<^verbatim>\<open>actions\<close> returns; the reference is the game value \<open>maxmin\<close>/\<open>minmax\<close>/\<open>game_value\<close>.
  \<^item> \<open>Depth\<close>: \<open>max_value_d\<close>, \<open>min_value_d\<close>, \<open>max_loop_d\<close>, \<open>min_loop_d\<close>, the same
    search with a budget of nested \<^verbatim>\<open>max_value\<close>/\<^verbatim>\<open>min_value\<close> calls (Python stack
    frames), \<open>None\<close> when it runs out.
  \<^item> \<open>Evaluator\<close>: a second evaluator of the game tree on the flattened board
    (\<open>fwinner\<close>, \<open>fplayer\<close>, \<open>fmoves\<close>), proved to refine the rules engine, and
    \<open>fbound\<close>, a pruned search deciding whether a side can force a value bound, proved
    sound for \<open>game_value\<close>; its evaluation in the kernel settles the whole game.
  \<^item> \<open>SelfPlay\<close>: \<open>selfplay\<close>, the spec's driver that lets \<^verbatim>\<open>minimax\<close> move for
    both sides, and \<open>cpython_iter\<close>, an iteration order that agrees with CPython 3.11 on
    the set \<^verbatim>\<open>actions(initial_state())\<close>.
  \<^item> \<open>PyDict\<close>: the built-ins \<^verbatim>\<open>questions.py\<close> relies on: dicts as insertion-ordered
    association lists (\<open>dict_get\<close>, \<open>AList.update\<close>), set iteration (\<open>valid_set_iter\<close>),
    \<open>py_div\<close>, \<^verbatim>\<open>sorted(..., reverse=True)\<close> as CPython computes it (\<open>py_sorted_rev\<close>),
    slices, and \<open>top_keys\<close>, the ranking step shared by both ranking functions.
  \<^item> \<open>Idf\<close>: \<open>compute_idfs\<close> (lines 76-100: \<open>count_contents\<close>, \<open>count_words\<close>,
    \<open>idf_loop\<close>); reference \<open>idf_spec\<close>.
  \<^item> \<open>Ranking\<close>: \<open>top_files\<close> (103-122: \<open>tfidf_add\<close>, \<open>tfidf_files\<close>,
    \<open>tfidf_query\<close>) and \<open>top_sentences\<close> (125-148: \<open>score_add\<close>, \<open>sentence_score\<close>,
    \<open>score_sentences\<close>, carrying the leftover loop variable \<^verbatim>\<open>word\<close>); references
    \<open>tfidf_spec\<close> and \<open>sentence_spec\<close>, and the docstring's \<open>query_density\<close>.
  \<^item> \<open>Questions\<close>: \<open>tokenize\<close> (63-74), \<open>py_split_nl\<close> for \<^verbatim>\<open>str.split("\n")\<close>, and
    \<open>main_answer\<close> (17-47) with \<open>collect_sentences\<close>/\<open>add_sentences\<close>.
  \<^item> \<open>Cli\<close>: \<open>load_files\<close> (48-62, with \<open>load_loop\<close>) over a file system given as
    directory listings in \<^verbatim>\<open>os.listdir\<close> order, and \<open>questions_main\<close>, the whole of
    \<^verbatim>\<open>main\<close> (11-47) with its \<^verbatim>\<open>sys.argv\<close> check; \<open>cli_error\<close> predicts the
    exception it ends with.

  \<^bold>\<open>What is proved\<close> (claim ids of the manifest). Search (C1-C6): for every iteration order
  the search terminates without raising on well-formed boards and its values are the game
  value (C2); \<open>minimax\<close> returns a legal optimal action on legal play (C1), the first optimal
  one of the order (C3), and on every non-terminal well-formed board a real action, never the
  placeholder (C4); the spec's two scenarios (C5, C6). The whole game (C7-C9): tic-tac-toe is
  a draw and every first move draws (C7); self-play with \<^verbatim>\<open>minimax\<close> from the initial
  board ends in a draw and never produces a winner (C8); the first move is the first action of
  the iteration order, under CPython the edge \<open>(0, 1)\<close> rather than the corner or centre
  the spec promises (C9). Legal play (C10-C13): the count invariant, turn alternation, at most
  one winner, utility. Rules (C14-C21): the size of \<open>actions\<close>, every branch of
  \<open>result\<close> including negative-index wrap-around, \<open>terminal\<close> and \<open>winner\<close> against
  the spec's lines. Ranker (C22-C35): \<open>compute_idfs\<close> refines the idf specification and
  its values lie in \<open>[0, ln N]\<close> (C22, C23); \<open>top_files\<close> refines tf-idf, returns the
  top \<open>n\<close> files, raises exactly \<open>KeyError\<close> when idfs are missing, and never with its
  own idfs (C24-C27); \<open>top_sentences\<close> refines its specification and ranks by (score,
  density) (C28, C29), but its density is that of the last query word (C30) and it drops
  matching sentences of score 0 (C31); \<^verbatim>\<open>main\<close> raises exactly the exception
  \<open>cli_error\<close> predicts (usage, missing directory, unreadable entry) and otherwise prints at
  most one sentence (C32), nothing at all on an empty corpus or when no file matches the query
  (C33), and only sentences drawn from a matching file (C34); tokens pass
  \<^verbatim>\<open>str.isalpha\<close> and are fixed by \<^verbatim>\<open>str.lower\<close> (C35). Games (C36): every game of
  \<open>play\<close> from the initial board lasts at most nine moves, and a non-terminal board always
  has a move \<open>result\<close> accepts, so the driver never gets stuck and every game ends. Depth
  (C37): the search returns within one nested call more than the free cells on every board,
  hence within ten on a 3x3 board, far below CPython's recursion limit.

  \<^bold>\<open>Termination, bounds and fuel.\<close> The search is a \<^theory_text>\<open>function\<close>
  terminating lexicographically on free cells, value-before-loop and remaining actions; the
  only fuel is the depth budget of \<open>Depth\<close>, and \<open>empties b + 1\<close> (at most 10) is
  proved enough, so it never cuts a search short. \<open>fbound\<close> terminates on the number of
  free cells; checking the nine first moves with it visits about 4400 boards, which the
  kernel evaluates (\<open>code_simp\<close>) in a few minutes, where evaluating \<open>game_value\<close>
  itself (over half a million boards) would take hours. Every
  loop of \<^verbatim>\<open>questions.py\<close> is structural recursion over a list. The initial bounds
  \<^verbatim>\<open>-5\<close>/\<^verbatim>\<open>5\<close> are outside every utility, so the placeholder move is always replaced.

  \<^bold>\<open>Modelling choices.\<close> Python floats are real numbers and \<^verbatim>\<open>np.log\<close> is \<open>ln\<close>:
  rounding, and ties it could create or break, are not modelled. Text is a \<open>string\<close>, whose 256-valued
  characters stand for the Unicode code points U+0000..U+00FF; on them \<^verbatim>\<open>str.lower\<close>
  and \<^verbatim>\<open>str.isalpha\<close> are modelled exactly as CPython computes them (ASCII and
  Latin-1 letters). Text with code points above U+00FF is not representable. Set iteration orders are
  parameters constrained to enumerate the set (once each, for \<^verbatim>\<open>questions.py\<close>).

  \<^bold>\<open>Not modelled.\<close> The operating system behind \<^verbatim>\<open>os.listdir\<close> and
  \<^verbatim>\<open>open\<close> (a listing and decoded contents are given per directory), NLTK's \<^verbatim>\<open>word_tokenize\<close>/\<^verbatim>\<open>sent_tokenize\<close> (a library: parameters),
  \<^verbatim>\<open>input\<close>/\<^verbatim>\<open>print\<close> (an argument and the result), and the unused \<^verbatim>\<open>turtle\<close> import
  of the engine; the game runner is not under \<^verbatim>\<open>src/\<close>, so only its loop
  (\<open>play\<close>, \<open>selfplay\<close>) is modelled, from the spec, and not its rendering or
  input. Every function of both files under \<^verbatim>\<open>src/\<close> is modelled; the lines left are
  imports, docstrings and the \<^verbatim>\<open>if __name__ == "__main__"\<close> guard, which have no
  behaviour of their own to model.
\<close>

end
